theory Spec2Isabelle
  imports Complex_Main "HOL-Library.Multiset"
begin

section \<open>Cards and the deck (app.js, lines 14--62)\<close>

text \<open>
  The source keeps a rank and a suit as one-character strings taken from the two constant
  arrays \<open>RANKS\<close> and \<open>SUITS\<close>. The thirteen rank strings and the four suit
  strings are the constructors of two datatypes, listed in the order of the arrays.
\<close>

datatype suit_sym = Spades | Hearts | Diamonds | Clubs

datatype rank_sym = R2 | R3 | R4 | R5 | R6 | R7 | R8 | R9 | RT | RJ | RQ | RK | RA

definition SUITS :: "suit_sym list" where
  "SUITS = [Spades, Hearts, Diamonds, Clubs]"

definition RANKS :: "rank_sym list" where
  "RANKS = [R2, R3, R4, R5, R6, R7, R8, R9, RT, RJ, RQ, RK, RA]"

fun RANK_VALUES :: "rank_sym \<Rightarrow> int" where
  "RANK_VALUES R2 = 2"
| "RANK_VALUES R3 = 3"
| "RANK_VALUES R4 = 4"
| "RANK_VALUES R5 = 5"
| "RANK_VALUES R6 = 6"
| "RANK_VALUES R7 = 7"
| "RANK_VALUES R8 = 8"
| "RANK_VALUES R9 = 9"
| "RANK_VALUES RT = 10"
| "RANK_VALUES RJ = 11"
| "RANK_VALUES RQ = 12"
| "RANK_VALUES RK = 13"
| "RANK_VALUES RA = 14"

text \<open>\<open>class Card\<close>: the two fields set by the constructor.\<close>

record card =
  rank :: rank_sym
  suit :: suit_sym

text \<open>
  \<open>class Deck\<close>. The only field is the array \<open>cards\<close>, so a deck is the list of its
  cards, index 0 first. The constructor pushes, for each suit in turn, the thirteen ranks.
\<close>

definition newDeck :: "card list" where
  "newDeck = concat (map (\<lambda>s. map (\<lambda>r. \<lparr>rank = r, suit = s\<rparr>) RANKS) SUITS)"

text \<open>
  \<open>Deck.shuffle\<close> walks \<open>i\<close> from the last index down to 1 and swaps positions \<open>i\<close>
  and \<open>j = Math.floor(Math.random() * (i + 1))\<close>. The random source is the parameter
  \<open>rnd\<close>: \<open>rnd i\<close> is the index \<open>j\<close> drawn at loop index \<open>i\<close>, a number of
  \<open>0..i\<close>.
\<close>

definition swap :: "nat \<Rightarrow> nat \<Rightarrow> 'a list \<Rightarrow> 'a list" where
  "swap i j xs = xs[i := xs ! j, j := xs ! i]"

fun shuffle_from :: "(nat \<Rightarrow> nat) \<Rightarrow> nat \<Rightarrow> 'a list \<Rightarrow> 'a list" where
  "shuffle_from rnd 0 xs = xs"
| "shuffle_from rnd (Suc i) xs = shuffle_from rnd i (swap (Suc i) (rnd (Suc i)) xs)"

definition shuffle :: "(nat \<Rightarrow> nat) \<Rightarrow> 'a list \<Rightarrow> 'a list" where
  "shuffle rnd xs = shuffle_from rnd (length xs - 1) xs"

text \<open>
  \<open>Deck.deal\<close> is \<open>return this.cards.pop()\<close>: it removes and returns the last element
  of the array; on an empty array \<open>pop\<close> returns \<open>undefined\<close> and leaves the array
  empty. \<open>None\<close> stands for \<open>undefined\<close>. The result is the returned value and the
  deck afterwards.
\<close>

definition deal :: "card list \<Rightarrow> card option \<times> card list" where
  "deal cards = (if cards = [] then (None, []) else (Some (last cards), butlast cards))"

section \<open>The hand evaluator (app.js, lines 70--282)\<close>

text \<open>
  JavaScript values that are a number or \<open>undefined\<close> are \<open>int option\<close>, with
  \<open>None\<close> for \<open>undefined\<close>. A relational operator with an \<open>undefined\<close> operand is
  false, and reading an array past its end gives \<open>undefined\<close>.
\<close>

definition js_gt :: "int option \<Rightarrow> int option \<Rightarrow> bool" where
  "js_gt a b = (case (a, b) of (Some x, Some y) \<Rightarrow> x > y | _ \<Rightarrow> False)"

definition js_lt :: "int option \<Rightarrow> int option \<Rightarrow> bool" where
  "js_lt a b = (case (a, b) of (Some x, Some y) \<Rightarrow> x < y | _ \<Rightarrow> False)"

text \<open>\<open>{category, values}\<close>, the result of the evaluator.\<close>

record handRank =
  category :: int
  values_of :: "int option list"

text \<open>
  \<open>arr.slice().sort((a, b) => RANK_VALUES[b.rank] - RANK_VALUES[a.rank])\<close>: a stable
  sort by descending rank value (cards of equal rank keep their order).
\<close>

definition sort_desc :: "card list \<Rightarrow> card list" where
  "sort_desc hand = sort_key (\<lambda>c. - RANK_VALUES (rank c)) hand"

text \<open>
  The order in which a \<open>Set\<close> or the string keys of an object enumerate: each element
  once, at the place of its first insertion.
\<close>

fun insertion_order :: "'a list \<Rightarrow> 'a list" where
  "insertion_order [] = []"
| "insertion_order (x # xs) = x # filter (\<lambda>y. y \<noteq> x) (insertion_order xs)"

text \<open>
  \<open>counts[c.rank] = (counts[c.rank] || 0) + 1\<close> over the hand: \<open>counts[r]\<close> is the number
  of cards of rank \<open>r\<close>. \<open>Object.keys(counts)\<close> lists the keys that are canonical array
  indices first, in ascending numeric order (here the rank strings 2 to 9), and then the
  other keys (T, J, Q, K, A) in insertion order.
\<close>

definition counts :: "card list \<Rightarrow> rank_sym \<Rightarrow> nat" where
  "counts hand r = length (filter (\<lambda>c. rank c = r) hand)"

definition counts_keys :: "card list \<Rightarrow> rank_sym list" where
  "counts_keys hand =
     filter (\<lambda>r. r \<in> set (map rank hand)) [R2, R3, R4, R5, R6, R7, R8, R9]
     @ insertion_order (filter (\<lambda>r. r \<in> {RT, RJ, RQ, RK, RA}) (map rank hand))"

text \<open>\<open>suits[c.suit] = (suits[c.suit] || 0) + 1\<close>; the keys are in insertion order.\<close>

definition suits :: "card list \<Rightarrow> suit_sym \<Rightarrow> nat" where
  "suits hand s = length (filter (\<lambda>c. suit c = s) hand)"

definition suits_keys :: "card list \<Rightarrow> suit_sym list" where
  "suits_keys hand = insertion_order (map suit hand)"

text \<open>
  The two loops that look for five consecutive descending values in a list of distinct
  values: the outer index \<open>i\<close> runs over the windows of five, the inner loop checks
  \<open>u[i + j] - 1 = u[i + j + 1]\<close> for \<open>j < 4\<close>, and the first window that passes gives
  \<open>u[i]\<close>.
\<close>

fun find_seq :: "int list \<Rightarrow> int option" where
  "find_seq (a # b # c # d # e # rest) =
     (if a - 1 = b \<and> b - 1 = c \<and> c - 1 = d \<and> d - 1 = e then Some a
      else find_seq (b # c # d # e # rest))"
| "find_seq _ = None"

definition wheel :: "int list \<Rightarrow> bool" where
  "wheel u = (14 \<in> set u \<and> 5 \<in> set u \<and> 4 \<in> set u \<and> 3 \<in> set u \<and> 2 \<in> set u)"

text \<open>
  \<open>isStraight\<close> and \<open>straightHigh\<close> together: \<open>Some h\<close> when a straight with high card
  \<open>h\<close> was found, the wheel being tried only when no window passed.
\<close>

definition straight_high :: "int list \<Rightarrow> int option" where
  "straight_high u =
     (case find_seq u of Some h \<Rightarrow> Some h
      | None \<Rightarrow> if wheel u then Some 5 else None)"

text \<open>\<open>arr.find(p)\<close>: the first element that satisfies \<open>p\<close>, or \<open>undefined\<close>.\<close>

definition js_find :: "('a \<Rightarrow> bool) \<Rightarrow> 'a list \<Rightarrow> 'a option" where
  "js_find p xs = List.find p xs"

text \<open>
  The loop that sets \<open>tripsRank\<close>: over the keys of \<open>counts\<close>, a rank with count 3
  replaces the current choice when there is none or when its value is higher.
\<close>

definition tripsRank_of :: "card list \<Rightarrow> rank_sym option" where
  "tripsRank_of hand =
     fold (\<lambda>r t. if counts hand r = 3 \<and> (case t of None \<Rightarrow> True | Some t' \<Rightarrow> RANK_VALUES r > RANK_VALUES t')
                 then Some r else t)
       (counts_keys hand) None"

definition pairRank_of :: "card list \<Rightarrow> rank_sym \<Rightarrow> rank_sym option" where
  "pairRank_of hand tripsRank =
     fold (\<lambda>r p. if r \<noteq> tripsRank \<and> counts hand r \<ge> 2
                     \<and> (case p of None \<Rightarrow> True | Some p' \<Rightarrow> RANK_VALUES r > RANK_VALUES p')
                 then Some r else p)
       (counts_keys hand) None"

text \<open>
  \<open>evaluate5\<close>, in the order of the source: straight flush, four of a kind, full house,
  flush, straight, three of a kind, two pair, one pair, high card.
\<close>

definition evaluate5 :: "card list \<Rightarrow> handRank" where
  "evaluate5 hand0 =
    (let hand = sort_desc hand0;
         vals = map (\<lambda>c. RANK_VALUES (rank c)) hand;
         isFlush = (\<exists>s \<in> set (suits_keys hand). suits hand s \<ge> 5);
         uniqueRanks = insertion_order vals;
         straight = straight_high uniqueRanks;
         sf = (if isFlush \<and> straight \<noteq> None then
                 (case js_find (\<lambda>s. suits hand s \<ge> 5) (suits_keys hand) of
                    None \<Rightarrow> None
                  | Some flushSuit \<Rightarrow>
                      straight_high
                        (sort_key (\<lambda>v. - v)
                          (insertion_order
                            (map (\<lambda>c. RANK_VALUES (rank c)) (filter (\<lambda>c. suit c = flushSuit) hand)))))
               else None);
         quadsRank = js_find (\<lambda>r. counts hand r = 4) (counts_keys hand);
         tripsRank = tripsRank_of hand;
         pairRank = (case tripsRank of None \<Rightarrow> None | Some t \<Rightarrow> pairRank_of hand t);
         pairs = filter (\<lambda>r. counts hand r = 2) (counts_keys hand)
     in
       case sf of
         Some sfHigh \<Rightarrow> \<lparr>category = 8, values_of = [Some sfHigh]\<rparr>
       | None \<Rightarrow>
      (case quadsRank of
         Some q \<Rightarrow> \<lparr>category = 7,
                     values_of = [Some (RANK_VALUES q), js_find (\<lambda>v. v \<noteq> RANK_VALUES q) vals]\<rparr>
       | None \<Rightarrow>
      (case (tripsRank, pairRank) of
         (Some t, Some p) \<Rightarrow> \<lparr>category = 6, values_of = [Some (RANK_VALUES t), Some (RANK_VALUES p)]\<rparr>
       | _ \<Rightarrow>
       if isFlush then
         (case js_find (\<lambda>s. suits hand s \<ge> 5) (suits_keys hand) of
            None \<Rightarrow> \<lparr>category = 5, values_of = []\<rparr>
          | Some flushSuit \<Rightarrow>
              \<lparr>category = 5,
               values_of = map (\<lambda>c. Some (RANK_VALUES (rank c)))
                             (take 5 (sort_desc (filter (\<lambda>c. suit c = flushSuit) hand)))\<rparr>)
       else
      (case straight of
         Some straightHigh \<Rightarrow> \<lparr>category = 4, values_of = [Some straightHigh]\<rparr>
       | None \<Rightarrow>
      (case tripsRank of
         Some t \<Rightarrow> \<lparr>category = 3,
                     values_of = Some (RANK_VALUES t)
                                 # map Some (take 2 (filter (\<lambda>v. v \<noteq> RANK_VALUES t) vals))\<rparr>
       | None \<Rightarrow>
       if length pairs \<ge> 2 then
         (let sorted_pairs = sort_key (\<lambda>r. - RANK_VALUES r) pairs;
              highPair = RANK_VALUES (sorted_pairs ! 0);
              lowPair = RANK_VALUES (sorted_pairs ! 1)
          in \<lparr>category = 2,
              values_of = [Some highPair, Some lowPair,
                           js_find (\<lambda>v. v \<noteq> highPair \<and> v \<noteq> lowPair) vals]\<rparr>)
       else if length pairs = 1 then
         (let pairVal = RANK_VALUES (pairs ! 0)
          in \<lparr>category = 1,
              values_of = Some pairVal # map Some (take 3 (filter (\<lambda>v. v \<noteq> pairVal) vals))\<rparr>)
       else \<lparr>category = 0, values_of = map Some (take 5 vals)\<rparr>)))))"

text \<open>
  The lexicographic loop shared by \<open>evaluateHand\<close> and \<open>compareHands\<close>: for \<open>i\<close> from 0
  below \<open>a.length\<close>, \<open>a[i] > b[i]\<close> decides 1, \<open>a[i] < b[i]\<close> decides -1, and the
  loop falling through gives 0. The two lists are walked together; where \<open>b\<close> has ended,
  \<open>b[i]\<close> is \<open>undefined\<close>.
\<close>

fun lex_loop :: "int option list \<Rightarrow> int option list \<Rightarrow> int" where
  "lex_loop [] b = 0"
| "lex_loop (x # a) b =
     (let y = (case b of [] \<Rightarrow> None | y # _ \<Rightarrow> y) in
      if js_gt x y then 1
      else if js_lt x y then - 1
      else lex_loop a (tl b))"

text \<open>
  The five nested loops of \<open>evaluateHand\<close> push the five-card combinations
  \<open>i < j < k < l < m\<close> in lexicographic order of the indices.
\<close>

fun combinations :: "nat \<Rightarrow> 'a list \<Rightarrow> 'a list list" where
  "combinations 0 xs = [[]]"
| "combinations (Suc k) [] = []"
| "combinations (Suc k) (x # xs) = map ((#) x) (combinations k xs) @ combinations (Suc k) xs"

text \<open>
  One round of the loop over the combinations: the new result replaces \<open>best\<close> when its
  category is higher, or when the categories are equal and the lexicographic loop ends
  with \<open>better = true\<close>.
\<close>

definition keep_best :: "card list \<Rightarrow> handRank \<Rightarrow> handRank" where
  "keep_best hand best =
     (let evalResult = evaluate5 hand in
      if category evalResult > category best then evalResult
      else if category evalResult = category best
              \<and> lex_loop (values_of evalResult) (values_of best) = 1 then evalResult
      else best)"

definition evaluateHand :: "card list \<Rightarrow> handRank" where
  "evaluateHand cards =
     fold keep_best (combinations 5 (sort_desc cards)) \<lparr>category = - 1, values_of = []\<rparr>"

definition compareHands :: "card list \<Rightarrow> card list \<Rightarrow> card list \<Rightarrow> int" where
  "compareHands handA handB board =
     (let evalA = evaluateHand (handA @ board);
          evalB = evaluateHand (handB @ board)
      in if category evalA > category evalB then 1
         else if category evalA < category evalB then - 1
         else lex_loop (values_of evalA) (values_of evalB))"

section \<open>The equity estimator's pool (app.js, lines 288--310)\<close>

text \<open>
  \<open>computeEquity(playerCards, knownBoard, deck, runs)\<close> begins with
  \<open>remaining = deck.cards.filter(c => !playerCards.includes(c) && !knownBoard.includes(c))\<close>,
  and every run copies \<open>remaining\<close>, shuffles the copy and reads the opponent's two cards
  and the missing board cards from its front. \<open>includes\<close> compares object identity; the
  cards of one deck are distinct objects with distinct rank and suit, so identity is
  equality of the values. The deck object is only read.
\<close>

definition remaining :: "card list \<Rightarrow> card list \<Rightarrow> card list \<Rightarrow> card list" where
  "remaining playerCards knownBoard deck_cards =
     filter (\<lambda>c. c \<notin> set playerCards \<and> c \<notin> set knownBoard) deck_cards"

section \<open>The betting state machine (app.js, lines 358--896)\<close>

text \<open>
  Chip amounts are JavaScript numbers. They start as whole numbers and are only added,
  subtracted, compared and halved, which is exact in double precision for the sizes in
  play; they are modelled as rationals.
\<close>

datatype who = Player | Opponent

datatype stage_sym = Preflop | Flop | Turn | River | Showdown

datatype action = Fold | Check | Allin | Raise

text \<open>\<open>{cards, stack, currentBet, folded}\<close>, the structure of the two players.\<close>

record playerObj =
  cards :: "card list"
  stack :: rat
  currentBet :: rat
  folded :: bool

text \<open>
  The fields of the global \<open>gameState\<close> that the engine reads: the DOM, the action log
  and the opponent's style (read only where the opponent chooses its action) are left out.
  \<open>aiTimers\<close> is not a field of the source: it counts the \<open>setTimeout\<close> callbacks
  of \<open>aiAction\<close> that \<open>nextAction\<close> has scheduled and that have not run yet.
\<close>

record gameState =
  bigBlind :: rat
  player :: playerObj
  opponent :: playerObj
  button :: who
  deck :: "card list"
  board :: "card list"
  pot :: rat
  stage :: stage_sym
  turn :: who
  awaitingUser :: bool
  aiTimers :: nat

text \<open>
  \<open>bet(playerObj, amount)\<close>. The source passes the player object; the model passes which
  of the two it is.
\<close>

definition bet :: "who \<Rightarrow> rat \<Rightarrow> gameState \<Rightarrow> gameState" where
  "bet w amount0 gs =
     (case w of
        Player \<Rightarrow>
          (let amount = min amount0 (stack (player gs)) in
           gs\<lparr>player := (player gs)\<lparr>stack := stack (player gs) - amount,
                                      currentBet := currentBet (player gs) + amount\<rparr>,
              pot := pot gs + amount\<rparr>)
      | Opponent \<Rightarrow>
          (let amount = min amount0 (stack (opponent gs)) in
           gs\<lparr>opponent := (opponent gs)\<lparr>stack := stack (opponent gs) - amount,
                                          currentBet := currentBet (opponent gs) + amount\<rparr>,
              pot := pot gs + amount\<rparr>))"

definition postBlinds :: "gameState \<Rightarrow> gameState" where
  "postBlinds gs =
     (let sb = bigBlind gs / 2 in
      if button gs = Player then bet Opponent (bigBlind gs) (bet Player sb gs)
      else bet Player (bigBlind gs) (bet Opponent sb gs))"

text \<open>
  \<open>goToShowdown\<close>: \<open>playerWins\<close> is \<open>true\<close>, \<open>false\<close> or \<open>null\<close> for a tie
  (\<open>Some True\<close>, \<open>Some False\<close>, \<open>None\<close>). The pot is added to the stacks; the field
  \<open>pot\<close> is not changed.
\<close>

definition goToShowdown :: "gameState \<Rightarrow> gameState" where
  "goToShowdown gs0 =
     (let gs = gs0\<lparr>stage := Showdown\<rparr>;
          playerWins =
            (if folded (player gs) then Some False
             else if folded (opponent gs) then Some True
             else (let cmp = compareHands (cards (player gs)) (cards (opponent gs)) (board gs) in
                   if cmp > 0 then Some True else if cmp < 0 then Some False else None))
      in case playerWins of
           Some True \<Rightarrow> gs\<lparr>player := (player gs)\<lparr>stack := stack (player gs) + pot gs\<rparr>\<rparr>
         | Some False \<Rightarrow> gs\<lparr>opponent := (opponent gs)\<lparr>stack := stack (opponent gs) + pot gs\<rparr>\<rparr>
         | None \<Rightarrow>
             (let half = pot gs / 2 in
              gs\<lparr>player := (player gs)\<lparr>stack := stack (player gs) + half\<rparr>,
                 opponent := (opponent gs)\<lparr>stack := stack (opponent gs) + half\<rparr>\<rparr>))"

definition nextAction :: "gameState \<Rightarrow> gameState" where
  "nextAction gs =
     (if folded (player gs) \<or> folded (opponent gs) then goToShowdown gs
      else if turn gs = Player then gs\<lparr>awaitingUser := True\<rparr>
      else gs\<lparr>awaitingUser := False, aiTimers := aiTimers gs + 1\<rparr>)"

text \<open>
  Dealing to the board. Each function ends with \<open>updateDisplay\<close>, which calls
  \<open>toString\<close> on every board card: when the deck has run out and \<open>deal\<close> has pushed
  \<open>undefined\<close>, that call throws a TypeError and the event handler ends there. \<open>None\<close>
  is that exception. The first card dealt is the burn card, which is ignored.
\<close>

definition dealFlop :: "gameState \<Rightarrow> gameState option" where
  "dealFlop gs =
     (let (burn, d1) = deal (deck gs);
          (c1, d2) = deal d1;
          (c2, d3) = deal d2;
          (c3, d4) = deal d3
      in case (c1, c2, c3) of
           (Some a, Some b, Some c) \<Rightarrow>
             Some (gs\<lparr>deck := d4, board := board gs @ [a, b, c], stage := Flop\<rparr>)
         | _ \<Rightarrow> None)"

definition dealTurn :: "gameState \<Rightarrow> gameState option" where
  "dealTurn gs =
     (let (burn, d1) = deal (deck gs);
          (c1, d2) = deal d1
      in case c1 of
           Some a \<Rightarrow> Some (gs\<lparr>deck := d2, board := board gs @ [a], stage := Turn\<rparr>)
         | None \<Rightarrow> None)"

definition dealRiver :: "gameState \<Rightarrow> gameState option" where
  "dealRiver gs =
     (let (burn, d1) = deal (deck gs);
          (c1, d2) = deal d1
      in case c1 of
           Some a \<Rightarrow> Some (gs\<lparr>deck := d2, board := board gs @ [a], stage := River\<rparr>)
         | None \<Rightarrow> None)"

text \<open>
  \<open>advanceOrSwitch\<close>. In the river branch \<open>goToShowdown\<close> is followed by the assignment
  to \<open>turn\<close> and by \<open>nextAction\<close>, as in every other branch; at stage showdown no branch
  of the chain applies.
\<close>

definition advanceOrSwitch :: "gameState \<Rightarrow> gameState option" where
  "advanceOrSwitch gs =
     (if currentBet (player gs) = currentBet (opponent gs) then
        (let gs1 = gs\<lparr>player := (player gs)\<lparr>currentBet := 0\<rparr>,
                      opponent := (opponent gs)\<lparr>currentBet := 0\<rparr>\<rparr>;
             dealt =
               (case stage gs1 of
                  Preflop \<Rightarrow> dealFlop gs1
                | Flop \<Rightarrow> dealTurn gs1
                | Turn \<Rightarrow> dealRiver gs1
                | River \<Rightarrow> Some (goToShowdown gs1)
                | Showdown \<Rightarrow> Some gs1)
         in case dealt of
              None \<Rightarrow> None
            | Some gs2 \<Rightarrow>
                Some (nextAction (gs2\<lparr>turn := (if button gs2 = Player then Player else Opponent)\<rparr>)))
      else Some (nextAction (gs\<lparr>turn := (if turn gs = Player then Opponent else Player)\<rparr>)))"

text \<open>
  \<open>userAction(action, raiseAmount)\<close>, called by the four action buttons with the
  actions \<open>fold\<close>, \<open>check\<close>, \<open>allin\<close> and \<open>raise\<close>. A check with an amount to call
  is the call. Only the check branch goes through \<open>advanceOrSwitch\<close>; all-in and raise
  give the turn to the opponent and call \<open>nextAction\<close>.
\<close>

definition userAction :: "action \<Rightarrow> rat \<Rightarrow> gameState \<Rightarrow> gameState option" where
  "userAction act raiseAmount gs0 =
     (let gs = gs0\<lparr>awaitingUser := False\<rparr>;
          toCall = max 0 (currentBet (opponent gs) - currentBet (player gs))
      in case act of
           Fold \<Rightarrow> Some (goToShowdown (gs\<lparr>player := (player gs)\<lparr>folded := True\<rparr>\<rparr>))
         | Check \<Rightarrow> advanceOrSwitch (if toCall > 0 then bet Player toCall gs else gs)
         | Allin \<Rightarrow> Some (nextAction ((bet Player (stack (player gs)) gs)\<lparr>turn := Opponent\<rparr>))
         | Raise \<Rightarrow> Some (nextAction ((bet Player (toCall + raiseAmount) gs)\<lparr>turn := Opponent\<rparr>)))"

text \<open>
  \<open>aiAction\<close> from the comment \<open>Execute action\<close> on (lines 850--895). The choice of
  \<open>action\<close> and \<open>raiseAmount\<close> above it draws on \<open>Math.random\<close> and on the sampled
  equity and changes no state; the two chosen values are parameters here.

  \<open>aiAdvanceOrSwitch\<close> is the branch \<open>Switch or advance\<close> that ends the function (lines
  875--894), the opponent's own copy of \<open>advanceOrSwitch\<close>: at the river it returns right
  after \<open>goToShowdown\<close>, and when the bets differ the turn goes to the player.
\<close>

definition aiAdvanceOrSwitch :: "gameState \<Rightarrow> gameState option" where
  "aiAdvanceOrSwitch gs =
     (if currentBet (player gs) = currentBet (opponent gs) then
        (let gs1 = gs\<lparr>player := (player gs)\<lparr>currentBet := 0\<rparr>,
                      opponent := (opponent gs)\<lparr>currentBet := 0\<rparr>\<rparr>
         in case stage gs1 of
              River \<Rightarrow> Some (goToShowdown gs1)
            | st \<Rightarrow>
                (case (case st of Preflop \<Rightarrow> dealFlop gs1 | Flop \<Rightarrow> dealTurn gs1
                            | Turn \<Rightarrow> dealRiver gs1 | _ \<Rightarrow> Some gs1) of
                   None \<Rightarrow> None
                 | Some gs2 \<Rightarrow>
                     Some (nextAction
                            (gs2\<lparr>turn := (if button gs2 = Player then Player else Opponent)\<rparr>))))
      else Some (nextAction (gs\<lparr>turn := Player\<rparr>)))"

definition aiAction :: "action \<Rightarrow> rat \<Rightarrow> gameState \<Rightarrow> gameState option" where
  "aiAction act raiseAmount gs =
     (let toCall = max 0 (currentBet (player gs) - currentBet (opponent gs)) in
      case act of
        Fold \<Rightarrow> Some (goToShowdown (gs\<lparr>opponent := (opponent gs)\<lparr>folded := True\<rparr>\<rparr>))
      | Check \<Rightarrow> aiAdvanceOrSwitch (if toCall > 0 then bet Opponent toCall gs else gs)
      | Allin \<Rightarrow> aiAdvanceOrSwitch (bet Opponent (stack (opponent gs)) gs)
      | Raise \<Rightarrow> aiAdvanceOrSwitch (bet Opponent (toCall + raiseAmount) gs))"

text \<open>
  \<open>initGame\<close> and \<open>startHand\<close>. \<open>initGame\<close> assigns the big blind, the two players and
  the button, and then starts the first hand; every other field is assigned by
  \<open>startHand\<close> before it is read. \<open>startStacks\<close> is the \<open>switch\<close> of \<open>initGame\<close> over the
  three stack scenarios of the setup screen (player's stack first). \<open>startHand\<close> deals the
  four hole cards from a new shuffled deck of 52 cards; the \<open>None\<close> branch, an
  \<open>undefined\<close> hole card, is there for the shape of \<open>deal\<close> only (see
  \<open>startHand_Some\<close>).
\<close>

datatype scenario = Short_stacks | Equal_stacks | Big_stack

definition startStacks :: "scenario \<Rightarrow> rat \<times> rat" where
  "startStacks sc =
     (let bb = 100 in
      case sc of
        Short_stacks \<Rightarrow> (20 * bb, 20 * bb)
      | Equal_stacks \<Rightarrow> (100 * bb, 100 * bb)
      | Big_stack \<Rightarrow> (150 * bb, 50 * bb))"

definition startHand :: "(nat \<Rightarrow> nat) \<Rightarrow> gameState \<Rightarrow> gameState option" where
  "startHand rnd gs =
     (let d0 = shuffle rnd newDeck;
          (p1, d1) = deal d0;
          (p2, d2) = deal d1;
          (o1, d3) = deal d2;
          (o2, d4) = deal d3
      in case (p1, p2, o1, o2) of
           (Some a, Some b, Some c, Some d) \<Rightarrow>
             (let gs1 = gs\<lparr>deck := d4, board := [],
                           player := (player gs)\<lparr>cards := [a, b], currentBet := 0, folded := False\<rparr>,
                           opponent := (opponent gs)\<lparr>cards := [c, d], currentBet := 0, folded := False\<rparr>,
                           pot := 0,
                           button := (if button gs = Player then Opponent else Player)\<rparr>;
                  gs2 = postBlinds gs1;
                  gs3 = gs2\<lparr>stage := Preflop,
                            turn := (if button gs2 = Player then Opponent else Player)\<rparr>
              in Some (nextAction gs3))
         | _ \<Rightarrow> None)"

definition initGame :: "(nat \<Rightarrow> nat) \<Rightarrow> scenario \<Rightarrow> gameState \<Rightarrow> gameState option" where
  "initGame rnd sc gs =
     startHand rnd
       (gs\<lparr>bigBlind := 100,
           player := \<lparr>cards = [], stack = fst (startStacks sc), currentBet = 0, folded = False\<rparr>,
           opponent := \<lparr>cards = [], stack = snd (startStacks sc), currentBet = 0, folded = False\<rparr>,
           button := Player\<rparr>)"

text \<open>
  The events of a hand. A click on an action button calls \<open>userAction\<close> only while
  \<open>awaitingUser\<close> is set; \<open>raiseAmount\<close> is the slider's value for the raise button and
  the default 0 for the others. A timer callback runs \<open>aiAction\<close>, with the action and
  amount the opponent chose.
\<close>

datatype event = Click action rat | AiTimer action rat

definition step :: "event \<Rightarrow> gameState \<Rightarrow> gameState option" where
  "step ev gs =
     (case ev of
        Click act amt \<Rightarrow> (if awaitingUser gs then userAction act amt gs else Some gs)
      | AiTimer act amt \<Rightarrow>
          (if aiTimers gs > 0 then aiAction act amt (gs\<lparr>aiTimers := aiTimers gs - 1\<rparr>)
           else Some gs))"

fun run :: "event list \<Rightarrow> gameState \<Rightarrow> gameState option" where
  "run [] gs = Some gs"
| "run (ev # evs) gs = (case step ev gs of None \<Rightarrow> None | Some gs' \<Rightarrow> run evs gs')"

section \<open>The opponent's starting-hand score (app.js, lines 901--921)\<close>

text \<open>
  The numbers of \<open>startingHandStrength\<close> are IEEE 754 double-precision values, and its
  constants 0.8, 0.2, 0.1 and 0.05 are not doubles, so every step rounds. A finite double
  is a rational \<open>m * 2^e\<close> with \<open>|m| < 2^53\<close> and \<open>e \<ge> -1074\<close>; \<open>double x\<close> is the
  double nearest to the rational \<open>x\<close>, ties going to the even significand, which is what
  a decimal literal, \<open>/\<close>, \<open>*\<close> and \<open>+\<close> return for the exact value \<open>x\<close> of the
  literal or of the operation on their operands. Values beyond the largest finite double
  (which would round to \<open>Infinity\<close>) do not arise: every value here is below 2.

  \<open>bit_length n\<close> is the number of binary digits of a positive integer, \<open>ilog2 x\<close>
  the exponent \<open>k\<close> with \<open>2^k \<le> x < 2^(k+1)\<close> of a positive rational, and
  \<open>round_even y\<close> the integer nearest to \<open>y\<close>, the even one of the two when \<open>y\<close> lies
  halfway.
\<close>

function bit_length :: "int \<Rightarrow> int" where
  "bit_length n = (if n \<le> 0 then 0 else 1 + bit_length (n div 2))"
  by pat_completeness auto
termination
  by (relation "measure nat") auto

declare bit_length.simps [simp del]

definition ilog2 :: "rat \<Rightarrow> int" where
  "ilog2 x =
     (let (p, q) = quotient_of x;
          k = bit_length p - bit_length q
      in if 2 powi k \<le> x then k else k - 1)"

definition round_even :: "rat \<Rightarrow> int" where
  "round_even y =
     (let f = \<lfloor>y\<rfloor>; d = y - of_int f
      in if d < 1 / 2 then f else if 1 / 2 < d then f + 1
         else if even f then f else f + 1)"

definition double :: "rat \<Rightarrow> rat" where
  "double x =
     (if x = 0 then 0
      else (let e = max (ilog2 \<bar>x\<bar> - 52) (- 1074)
            in of_int (round_even (x / 2 powi e)) * 2 powi e))"

text \<open>
  \<open>startingHandStrength(cards)\<close> reads \<open>cards[0]\<close> and \<open>cards[1]\<close>; with fewer than two
  cards the read of \<open>.rank\<close> throws a TypeError (\<open>None\<close>). The rank values and 14 are
  whole numbers, exact as doubles; each literal and each arithmetic operation of the
  source is one \<open>double\<close> here, in the order in which JavaScript evaluates them
  (\<open>highCard / 14 * 0.5\<close> divides first). \<open>Math.min\<close> and \<open>Math.max\<close> do not round.
\<close>

fun startingHandStrength :: "card list \<Rightarrow> rat option" where
  "startingHandStrength (c0 # c1 # _) =
     (let r1 = RANK_VALUES (rank c0);
          r2 = RANK_VALUES (rank c1);
          suited = (suit c0 = suit c1)
      in if r1 = r2
         then Some (double (double (double (of_int r1 / 14) * double (8 / 10)) + double (2 / 10)))
         else
           (let highCard = max r1 r2;
                lowCard = min r1 r2;
                score0 = double (0 + double (double (of_int highCard / 14) * double (5 / 10)));
                score1 = double (score0 + double (double (of_int lowCard / 14) * double (1 / 10)));
                score2 = (if suited then double (score1 + double (1 / 10)) else score1);
                diff = \<bar>r1 - r2\<bar>;
                score3 = (if diff = 1 then double (score2 + double (1 / 10))
                          else if diff = 2 then double (score2 + double (5 / 100)) else score2)
            in Some (min score3 1)))"
| "startingHandStrength _ = None"

text \<open>
  The score as the specification states it, in exact arithmetic, from the two rank values
  and whether the cards are suited: pairs score \<open>0.2 + 0.8 (rank / 14)\<close>; non-pairs
  score \<open>0.5 (highRank / 14) + 0.1 (lowRank / 14)\<close>, plus 0.1 if suited, plus 0.1 if the
  ranks differ by 1, plus 0.05 if they differ by 2, capped at 1.
\<close>

definition stated_strength :: "int \<Rightarrow> int \<Rightarrow> bool \<Rightarrow> rat" where
  "stated_strength r1 r2 suited =
     (if r1 = r2 then 2 / 10 + 8 / 10 * (of_int r1 / 14)
      else min 1
             (5 / 10 * (of_int (max r1 r2) / 14) + 1 / 10 * (of_int (min r1 r2) / 14)
              + (if suited then 1 / 10 else 0)
              + (if \<bar>r1 - r2\<bar> = 1 then 1 / 10 else if \<bar>r1 - r2\<bar> = 2 then 5 / 100 else 0)))"

section \<open>Example states\<close>

text \<open>
  A state at the river with an odd pot in which both players play the board: the board is
  the royal flush in spades.
\<close>

definition tieState :: gameState where
  "tieState =
     \<lparr>bigBlind = 100,
      player = \<lparr>cards = [\<lparr>rank = R2, suit = Hearts\<rparr>, \<lparr>rank = R3, suit = Diamonds\<rparr>],
                stack = 9900, currentBet = 0, folded = False\<rparr>,
      opponent = \<lparr>cards = [\<lparr>rank = R4, suit = Clubs\<rparr>, \<lparr>rank = R5, suit = Hearts\<rparr>],
                  stack = 9949, currentBet = 0, folded = False\<rparr>,
      button = Player,
      deck = [],
      board = [\<lparr>rank = RA, suit = Spades\<rparr>, \<lparr>rank = RK, suit = Spades\<rparr>,
               \<lparr>rank = RQ, suit = Spades\<rparr>, \<lparr>rank = RJ, suit = Spades\<rparr>,
               \<lparr>rank = RT, suit = Spades\<rparr>],
      pot = 151,
      stage = River,
      turn = Player,
      awaitingUser = True,
      aiTimers = 0\<rparr>"

text \<open>
  The session object before \<open>initGame\<close>: the source starts from \<open>gameState = {}\<close>, in
  which every field is \<open>undefined\<close>. \<open>initGame\<close> and \<open>startHand\<close> assign each field
  before it is read, so the values given here to those fields are never used; no timer
  is pending and \<open>awaitingUser\<close> is falsy.
\<close>

definition newSession :: gameState where
  "newSession =
     \<lparr>bigBlind = 0,
      player = \<lparr>cards = [], stack = 0, currentBet = 0, folded = False\<rparr>,
      opponent = \<lparr>cards = [], stack = 0, currentBet = 0, folded = False\<rparr>,
      button = Player,
      deck = [],
      board = [],
      pot = 0,
      stage = Showdown,
      turn = Player,
      awaitingUser = False,
      aiTimers = 0\<rparr>"

text \<open>
  A state between two hands of the equal-stacks match, as after a first hand that ended in
  a split pot: both stacks are 10000 chips, the big blind is 100 and the opponent had the
  button in the hand before, so that \<open>startHand\<close> gives the button to the player. The
  cards, the bets, the pot, the stage and the turn are all assigned anew by \<open>startHand\<close>.
\<close>

definition evenState :: gameState where
  "evenState =
     \<lparr>bigBlind = 100,
      player = \<lparr>cards = [], stack = 10000, currentBet = 0, folded = False\<rparr>,
      opponent = \<lparr>cards = [], stack = 10000, currentBet = 0, folded = False\<rparr>,
      button = Opponent,
      deck = [],
      board = [],
      pot = 0,
      stage = Showdown,
      turn = Player,
      awaitingUser = False,
      aiTimers = 0\<rparr>"

section \<open>Quantities and invariants of a hand\<close>

text \<open>The chips on the table, and the chips in the two stacks.\<close>

definition chips :: "gameState \<Rightarrow> rat" where
  "chips gs = pot gs + stack (player gs) + stack (opponent gs)"

definition stacks :: "gameState \<Rightarrow> rat" where
  "stacks gs = stack (player gs) + stack (opponent gs)"

text \<open>
  The number of cards the rest of the hand can still take from the deck: a burn card
  before each street, three cards for the flop, one each for turn and river.
\<close>

definition cards_needed :: "stage_sym \<Rightarrow> nat" where
  "cards_needed st = (case st of Preflop \<Rightarrow> 8 | Flop \<Rightarrow> 4 | Turn \<Rightarrow> 2 | _ \<Rightarrow> 0)"

text \<open>
  A hand in play: before the showdown, nobody has folded, the chips on the table are
  \<open>tot\<close> and the deck holds the cards the remaining streets need. A hand whose pot has
  been awarded: at the showdown, the two stacks hold \<open>tot\<close>.
\<close>

definition in_play :: "rat \<Rightarrow> gameState \<Rightarrow> bool" where
  "in_play tot gs =
     (stage gs \<noteq> Showdown \<and> \<not> folded (player gs) \<and> \<not> folded (opponent gs)
      \<and> chips gs = tot \<and> cards_needed (stage gs) \<le> length (deck gs))"

definition awarded :: "rat \<Rightarrow> gameState \<Rightarrow> bool" where
  "awarded tot gs = (stage gs = Showdown \<and> stacks gs = tot)"

text \<open>
  The pool of the equity computation in \<open>aiAction\<close> (lines 733--734), which calls
  \<open>computeEquity(opp.cards, knownBoard, gameState.deck, 150)\<close> with a copy of the board
  and the live dealing deck.
\<close>

definition aiEquityPool :: "gameState \<Rightarrow> card list" where
  "aiEquityPool gs = remaining (cards (opponent gs)) (board gs) (deck gs)"

text \<open>
  The cards of a hand are where they were dealt to: no card is at once in two of deck,
  board and hole cards, or twice in one of them, and the deck holds cards of the full deck.
\<close>

definition cards_apart :: "gameState \<Rightarrow> bool" where
  "cards_apart gs =
     (distinct (deck gs @ board gs @ cards (player gs) @ cards (opponent gs))
      \<and> set (deck gs) \<subseteq> set newDeck)"

text \<open>
  The parts of an action that the statements below name. \<open>toCall\<close> is the amount the
  actor owes, \<open>Math.max(0, other.currentBet - own.currentBet)\<close>, computed at the head of
  \<open>userAction\<close> and of \<open>aiAction\<close>. \<open>chipsIn\<close> is the state once the chips of a
  non-fold action are in the pot: a check commits nothing, a call \<open>toCall\<close>, an all-in
  the actor's stack, a raise \<open>toCall + raiseAmount\<close>, each through \<open>bet\<close>.
\<close>

definition toCall :: "who \<Rightarrow> gameState \<Rightarrow> rat" where
  "toCall w gs =
     (case w of
        Player \<Rightarrow> max 0 (currentBet (opponent gs) - currentBet (player gs))
      | Opponent \<Rightarrow> max 0 (currentBet (player gs) - currentBet (opponent gs)))"

definition chipsIn :: "who \<Rightarrow> action \<Rightarrow> rat \<Rightarrow> gameState \<Rightarrow> gameState" where
  "chipsIn w act raiseAmount gs =
     (case act of
        Fold \<Rightarrow> gs
      | Check \<Rightarrow> (if toCall w gs > 0 then bet w (toCall w gs) gs else gs)
      | Allin \<Rightarrow> bet w (stack (case w of Player \<Rightarrow> player gs | Opponent \<Rightarrow> opponent gs)) gs
      | Raise \<Rightarrow> bet w (toCall w gs + raiseAmount) gs)"

text \<open>The stage that follows a stage, and the number of board cards dealt on leaving it.\<close>

definition next_stage :: "stage_sym \<Rightarrow> stage_sym" where
  "next_stage st =
     (case st of Preflop \<Rightarrow> Flop | Flop \<Rightarrow> Turn | Turn \<Rightarrow> River | _ \<Rightarrow> Showdown)"

definition board_cards_dealt :: "stage_sym \<Rightarrow> nat" where
  "board_cards_dealt st = (case st of Preflop \<Rightarrow> 3 | Flop \<Rightarrow> 1 | Turn \<Rightarrow> 1 | _ \<Rightarrow> 0)"

text \<open>
  The two outcomes of a non-fold action. \<open>advanced gs gs'\<close>: both \<open>currentBet\<close> fields
  are 0, the stage is the next one and the board has grown by the cards of the new street.
  \<open>switched w c gs'\<close>: the turn is \<open>w\<close>'s, and stage, board and the two \<open>currentBet\<close>
  fields are those of \<open>c\<close>.
\<close>

definition advanced :: "gameState \<Rightarrow> gameState \<Rightarrow> bool" where
  "advanced gs gs' =
     (currentBet (player gs') = 0 \<and> currentBet (opponent gs') = 0
      \<and> stage gs' = next_stage (stage gs)
      \<and> length (board gs') = length (board gs) + board_cards_dealt (stage gs))"

definition switched :: "who \<Rightarrow> gameState \<Rightarrow> gameState \<Rightarrow> bool" where
  "switched w c gs' =
     (turn gs' = w \<and> stage gs' = stage c \<and> board gs' = board c
      \<and> currentBet (player gs') = currentBet (player c)
      \<and> currentBet (opponent gs') = currentBet (opponent c))"

section \<open>The deck: dealing\<close>

text \<open>
  C5, as the code has it (counterexample to the claim as stated). \<open>deal\<close> on the empty
  deck returns \<open>undefined\<close> and leaves the deck empty; nothing is raised and there is no
  DeckExhausted error in the source.
\<close>

theorem deal_empty_returns_undefined: "deal [] = (None, [])"
  by (simp add: deal_def)

text \<open>
  C5, amended. On an empty deck \<open>deal\<close> returns \<open>undefined\<close> and the deck stays empty;
  on a non-empty deck it removes and returns exactly one card, the last one of the array.
\<close>

theorem deal_pops_last_card:
  "(cs = [] \<longrightarrow> deal cs = (None, []))
   \<and> (cs \<noteq> [] \<longrightarrow> (\<exists>c rest. deal cs = (Some c, rest) \<and> cs = rest @ [c]
                                \<and> length rest + 1 = length cs))"
  by (simp add: deal_def)

theorem deal_pops_last_card_witness:
  "deal [\<lparr>rank = RK, suit = Clubs\<rparr>, \<lparr>rank = RA, suit = Clubs\<rparr>]
     = (Some \<lparr>rank = RA, suit = Clubs\<rparr>, [\<lparr>rank = RK, suit = Clubs\<rparr>])
   \<and> deal [] = (None, [])"
  using deal_pops_last_card [of "[\<lparr>rank = RK, suit = Clubs\<rparr>, \<lparr>rank = RA, suit = Clubs\<rparr>]"]
        deal_pops_last_card [of "[]"]
  by auto

section \<open>The evaluator: the wheel\<close>

lemma set_insertion_order: "set (insertion_order xs) = set xs"
  by (induction xs) auto

lemma insertion_order_distinct: "distinct xs \<Longrightarrow> insertion_order xs = xs"
  by (induction xs) (auto simp add: set_insertion_order filter_id_conv)

lemma sort_desc_idem: "sort_desc (sort_desc hand) = sort_desc hand"
  unfolding sort_desc_def by (rule sort_key_id_if_sorted) simp

lemma evaluate5_sort_desc: "evaluate5 (sort_desc hand) = evaluate5 hand"
  unfolding evaluate5_def sort_desc_idem ..

lemma sort_desc_eq:
  assumes "mset hand = mset ys" and "inj_on (\<lambda>c. RANK_VALUES (rank c)) (set ys)"
    and "sorted (map (\<lambda>c. - RANK_VALUES (rank c)) ys)"
  shows "sort_desc hand = ys"
proof -
  have "set hand = set ys" using assms(1) by (rule mset_eq_setD)
  then have "inj_on (\<lambda>c. - RANK_VALUES (rank c)) (set hand)"
    using assms(2) by (auto simp add: inj_on_def)
  then show ?thesis unfolding sort_desc_def using assms(1,3) by (intro sort_key_inj_key_eq)
qed

text \<open>
  Five cards of five different ranks, listed by descending rank, that form a straight with
  high card \<open>hi\<close>: a straight flush when the five suits agree, a straight otherwise.
\<close>

lemma evaluate5_straight:
  fixes r1 r2 r3 r4 r5 s1 s2 s3 s4 s5
  defines "h \<equiv> [\<lparr>rank = r1, suit = s1\<rparr>, \<lparr>rank = r2, suit = s2\<rparr>, \<lparr>rank = r3, suit = s3\<rparr>,
                  \<lparr>rank = r4, suit = s4\<rparr>, \<lparr>rank = r5, suit = s5\<rparr>]"
  assumes d: "distinct [r1, r2, r3, r4, r5]"
    and s: "sorted (map (\<lambda>r. - RANK_VALUES r) [r1, r2, r3, r4, r5])"
    and st: "straight_high (map RANK_VALUES [r1, r2, r3, r4, r5]) = Some hi"
  shows "evaluate5 h =
     (if s1 = s2 \<and> s2 = s3 \<and> s3 = s4 \<and> s4 = s5 then \<lparr>category = 8, values_of = [Some hi]\<rparr>
      else \<lparr>category = 4, values_of = [Some hi]\<rparr>)"
proof -
  have inj: "inj RANK_VALUES" by (rule injI) (rename_tac x y, case_tac x; case_tac y; simp)
  have dv: "distinct (map RANK_VALUES [r1, r2, r3, r4, r5])"
    using d inj by (simp only: distinct_map) (auto simp add: inj_on_def dest: injD)
  have a1: "sort_desc h = h"
    unfolding sort_desc_def h_def using s by (intro sort_key_id_if_sorted) simp
  have a2: "map (\<lambda>c. RANK_VALUES (rank c)) h = map RANK_VALUES [r1, r2, r3, r4, r5]"
    by (simp add: h_def)
  have a3: "insertion_order (map RANK_VALUES [r1, r2, r3, r4, r5]) = map RANK_VALUES [r1, r2, r3, r4, r5]"
    using dv by (rule insertion_order_distinct)
  have a5: "(\<exists>s\<in>set (suits_keys h). 5 \<le> suits h s) = (s1 = s2 \<and> s2 = s3 \<and> s3 = s4 \<and> s4 = s5)"
    unfolding suits_keys_def set_insertion_order suits_def h_def
    by (auto split: if_splits)
  have c1: "counts h r \<le> 1" for r
    using d unfolding counts_def h_def by auto
  have a6: "js_find (\<lambda>r. counts h r = 4) ks = None" for ks
    unfolding js_find_def find_None_iff
  proof
    assume "\<exists>x. x \<in> set ks \<and> counts h x = 4"
    then obtain x where "counts h x = 4" by blast
    with c1[of x] show False by simp
  qed
  have a7: "tripsRank_of h = None"
  proof -
    have "fold (\<lambda>r t. if counts h r = 3 \<and> (case t of None \<Rightarrow> True | Some t' \<Rightarrow> RANK_VALUES r > RANK_VALUES t')
                 then Some r else t) ks None = None" for ks
    proof (induction ks)
      case Nil show ?case by simp
    next
      case (Cons k ks)
      have "counts h k \<noteq> 3" using c1[of k] by simp
      then show ?case using Cons by simp
    qed
    then show ?thesis unfolding tripsRank_of_def .
  qed
  show ?thesis
  proof (cases "s1 = s2 \<and> s2 = s3 \<and> s3 = s4 \<and> s4 = s5")
    case False
    then have nf: "(\<exists>s\<in>set (suits_keys h). 5 \<le> suits h s) = False" using a5 by simp
    show ?thesis
      unfolding evaluate5_def Let_def a1 a2 a3 st nf a6 a7
      using False by simp
  next
    case True
    then have fl: "(\<exists>s\<in>set (suits_keys h). 5 \<le> suits h s) = True" using a5 by simp
    have fs: "js_find (\<lambda>s. 5 \<le> suits h s) (suits_keys h) = Some s1"
      using True by (simp add: js_find_def suits_keys_def suits_def h_def)
    have fc: "filter (\<lambda>c. suit c = s1) h = h"
      using True by (simp add: h_def)
    have srt: "sort_key (\<lambda>v. - v) (map RANK_VALUES [r1, r2, r3, r4, r5]) = map RANK_VALUES [r1, r2, r3, r4, r5]"
      using s by (intro sort_key_id_if_sorted) (simp add: comp_def)
    show ?thesis
      unfolding evaluate5_def Let_def a1 a2 a3 st fl fs option.case fc srt
      using True by simp
  qed
qed

text \<open>The same for the five cards in any order of the array.\<close>

lemma evaluate5_straight_any_order:
  assumes m: "mset hand = mset [\<lparr>rank = r1, suit = s1\<rparr>, \<lparr>rank = r2, suit = s2\<rparr>,
                               \<lparr>rank = r3, suit = s3\<rparr>, \<lparr>rank = r4, suit = s4\<rparr>,
                               \<lparr>rank = r5, suit = s5\<rparr>]"
    and d: "distinct [r1, r2, r3, r4, r5]"
    and s: "sorted (map (\<lambda>r. - RANK_VALUES r) [r1, r2, r3, r4, r5])"
    and st: "straight_high (map RANK_VALUES [r1, r2, r3, r4, r5]) = Some hi"
  shows "evaluate5 hand =
     (if s1 = s2 \<and> s2 = s3 \<and> s3 = s4 \<and> s4 = s5 then \<lparr>category = 8, values_of = [Some hi]\<rparr>
      else \<lparr>category = 4, values_of = [Some hi]\<rparr>)"
proof -
  let ?h = "[\<lparr>rank = r1, suit = s1\<rparr>, \<lparr>rank = r2, suit = s2\<rparr>, \<lparr>rank = r3, suit = s3\<rparr>,
             \<lparr>rank = r4, suit = s4\<rparr>, \<lparr>rank = r5, suit = s5\<rparr>]"
  have inj: "inj RANK_VALUES" by (rule injI) (rename_tac x y, case_tac x; case_tac y; simp)
  have "inj_on (\<lambda>c. RANK_VALUES (rank c)) (set ?h)"
    using d by (auto simp add: inj_on_def dest: injD[OF inj])
  moreover have "sorted (map (\<lambda>c. - RANK_VALUES (rank c)) ?h)" using s by simp
  ultimately have "sort_desc hand = ?h" using m by (intro sort_desc_eq)
  then have "evaluate5 hand = evaluate5 ?h" using evaluate5_sort_desc[of hand] by simp
  then show ?thesis using evaluate5_straight[OF d s st] by simp
qed

text \<open>
  C6. The five cards A, 2, 3, 4, 5, in any order of the array: with suits that are not all
  the same they evaluate to category 4 with tie-break vector [5], and the comparison loop
  puts that result below the one of any six-high straight 6, 5, 4, 3, 2 of mixed suits
  (equal category, -1 from the loop); with one suit they evaluate to category 8 with
  tie-break vector [5].
\<close>

theorem wheel_evaluation:
  assumes "mset hand = mset [\<lparr>rank = RA, suit = s1\<rparr>, \<lparr>rank = R2, suit = s2\<rparr>,
                              \<lparr>rank = R3, suit = s3\<rparr>, \<lparr>rank = R4, suit = s4\<rparr>,
                              \<lparr>rank = R5, suit = s5\<rparr>]"
  shows "(\<not> (s1 = s2 \<and> s2 = s3 \<and> s3 = s4 \<and> s4 = s5) \<longrightarrow>
            evaluate5 hand = \<lparr>category = 4, values_of = [Some 5]\<rparr>
          \<and> (\<forall>six t1 t2 t3 t4 t5.
                mset six = mset [\<lparr>rank = R6, suit = t1\<rparr>, \<lparr>rank = R5, suit = t2\<rparr>,
                                 \<lparr>rank = R4, suit = t3\<rparr>, \<lparr>rank = R3, suit = t4\<rparr>,
                                 \<lparr>rank = R2, suit = t5\<rparr>]
                \<and> \<not> (t1 = t2 \<and> t2 = t3 \<and> t3 = t4 \<and> t4 = t5) \<longrightarrow>
                evaluate5 six = \<lparr>category = 4, values_of = [Some 6]\<rparr>
                \<and> category (evaluate5 hand) = category (evaluate5 six)
                \<and> lex_loop (values_of (evaluate5 hand)) (values_of (evaluate5 six)) = - 1))
       \<and> (s1 = s2 \<and> s2 = s3 \<and> s3 = s4 \<and> s4 = s5 \<longrightarrow>
            evaluate5 hand = \<lparr>category = 8, values_of = [Some 5]\<rparr>)"
proof -
  have "mset hand = mset [\<lparr>rank = RA, suit = s1\<rparr>, \<lparr>rank = R5, suit = s5\<rparr>,
                          \<lparr>rank = R4, suit = s4\<rparr>, \<lparr>rank = R3, suit = s3\<rparr>,
                          \<lparr>rank = R2, suit = s2\<rparr>]"
    using assms by (simp add: ac_simps)
  then have w: "evaluate5 hand =
     (if s1 = s5 \<and> s5 = s4 \<and> s4 = s3 \<and> s3 = s2 then \<lparr>category = 8, values_of = [Some 5]\<rparr>
      else \<lparr>category = 4, values_of = [Some 5]\<rparr>)"
    by (rule evaluate5_straight_any_order) (simp_all add: straight_high_def wheel_def)
  have six: "evaluate5 six = \<lparr>category = 4, values_of = [Some 6]\<rparr>"
    if "mset six = mset [\<lparr>rank = R6, suit = t1\<rparr>, \<lparr>rank = R5, suit = t2\<rparr>,
                         \<lparr>rank = R4, suit = t3\<rparr>, \<lparr>rank = R3, suit = t4\<rparr>,
                         \<lparr>rank = R2, suit = t5\<rparr>]"
      and "\<not> (t1 = t2 \<and> t2 = t3 \<and> t3 = t4 \<and> t4 = t5)"
    for six t1 t2 t3 t4 t5
  proof -
    have "evaluate5 six =
       (if t1 = t2 \<and> t2 = t3 \<and> t3 = t4 \<and> t4 = t5 then \<lparr>category = 8, values_of = [Some 6]\<rparr>
        else \<lparr>category = 4, values_of = [Some 6]\<rparr>)"
      using that(1) by (rule evaluate5_straight_any_order) (simp_all add: straight_high_def)
    then show ?thesis using that(2) by simp
  qed
  show ?thesis
  proof (cases "s1 = s2 \<and> s2 = s3 \<and> s3 = s4 \<and> s4 = s5")
    case True
    then show ?thesis using w by simp
  next
    case False
    then have e: "evaluate5 hand = \<lparr>category = 4, values_of = [Some 5]\<rparr>" using w by auto
    show ?thesis using False e six by (auto simp add: js_gt_def js_lt_def)
  qed
qed

theorem wheel_evaluation_witness:
  "evaluate5 [\<lparr>rank = RA, suit = Spades\<rparr>, \<lparr>rank = R2, suit = Hearts\<rparr>,
              \<lparr>rank = R3, suit = Diamonds\<rparr>, \<lparr>rank = R4, suit = Clubs\<rparr>,
              \<lparr>rank = R5, suit = Spades\<rparr>] = \<lparr>category = 4, values_of = [Some 5]\<rparr>
   \<and> evaluate5 [\<lparr>rank = R3, suit = Hearts\<rparr>, \<lparr>rank = R5, suit = Hearts\<rparr>,
                \<lparr>rank = RA, suit = Hearts\<rparr>, \<lparr>rank = R2, suit = Hearts\<rparr>,
                \<lparr>rank = R4, suit = Hearts\<rparr>] = \<lparr>category = 8, values_of = [Some 5]\<rparr>
   \<and> compareHands [\<lparr>rank = RA, suit = Spades\<rparr>, \<lparr>rank = R9, suit = Hearts\<rparr>]
                   [\<lparr>rank = R6, suit = Spades\<rparr>, \<lparr>rank = R9, suit = Clubs\<rparr>]
                   [\<lparr>rank = R2, suit = Hearts\<rparr>, \<lparr>rank = R3, suit = Diamonds\<rparr>,
                    \<lparr>rank = R4, suit = Clubs\<rparr>, \<lparr>rank = R5, suit = Spades\<rparr>,
                    \<lparr>rank = RK, suit = Hearts\<rparr>] = - 1"
proof -
  have a: "evaluate5 [\<lparr>rank = RA, suit = Spades\<rparr>, \<lparr>rank = R2, suit = Hearts\<rparr>,
              \<lparr>rank = R3, suit = Diamonds\<rparr>, \<lparr>rank = R4, suit = Clubs\<rparr>,
              \<lparr>rank = R5, suit = Spades\<rparr>] = \<lparr>category = 4, values_of = [Some 5]\<rparr>"
    using wheel_evaluation [of "[\<lparr>rank = RA, suit = Spades\<rparr>, \<lparr>rank = R2, suit = Hearts\<rparr>,
              \<lparr>rank = R3, suit = Diamonds\<rparr>, \<lparr>rank = R4, suit = Clubs\<rparr>,
              \<lparr>rank = R5, suit = Spades\<rparr>]" Spades Hearts Diamonds Clubs Spades]
    by simp
  have b: "evaluate5 [\<lparr>rank = R3, suit = Hearts\<rparr>, \<lparr>rank = R5, suit = Hearts\<rparr>,
                \<lparr>rank = RA, suit = Hearts\<rparr>, \<lparr>rank = R2, suit = Hearts\<rparr>,
                \<lparr>rank = R4, suit = Hearts\<rparr>] = \<lparr>category = 8, values_of = [Some 5]\<rparr>"
    using wheel_evaluation [of "[\<lparr>rank = R3, suit = Hearts\<rparr>, \<lparr>rank = R5, suit = Hearts\<rparr>,
                \<lparr>rank = RA, suit = Hearts\<rparr>, \<lparr>rank = R2, suit = Hearts\<rparr>,
                \<lparr>rank = R4, suit = Hearts\<rparr>]" Hearts Hearts Hearts Hearts Hearts]
    by simp
  have c: "compareHands [\<lparr>rank = RA, suit = Spades\<rparr>, \<lparr>rank = R9, suit = Hearts\<rparr>]
                   [\<lparr>rank = R6, suit = Spades\<rparr>, \<lparr>rank = R9, suit = Clubs\<rparr>]
                   [\<lparr>rank = R2, suit = Hearts\<rparr>, \<lparr>rank = R3, suit = Diamonds\<rparr>,
                    \<lparr>rank = R4, suit = Clubs\<rparr>, \<lparr>rank = R5, suit = Spades\<rparr>,
                    \<lparr>rank = RK, suit = Hearts\<rparr>] = - 1"
    by code_simp
  show ?thesis using a b c by simp
qed

section \<open>The comparator\<close>

lemma js_gt_lt: "js_gt a b = js_lt b a"
  by (simp add: js_gt_def js_lt_def split: option.splits)

lemma js_not_both: "js_gt a b \<Longrightarrow> \<not> js_lt a b"
  by (auto simp add: js_gt_def js_lt_def split: option.splits)

lemma lex_loop_antisym: "lex_loop a b = - lex_loop b a"
proof (induction a arbitrary: b)
  case Nil
  show ?case
  proof (induction b)
    case Nil
    show ?case by simp
  next
    case (Cons y b)
    then show ?case by (simp add: js_gt_def js_lt_def split: option.splits)
  qed
next
  case (Cons x a)
  show ?case
  proof (cases b)
    case Nil
    have "lex_loop (x # a) [] = lex_loop a []"
      by (simp add: js_gt_def js_lt_def split: option.splits)
    also have "\<dots> = - lex_loop [] a" using Cons.IH[of "[]"] .
    finally show ?thesis using Nil by simp
  next
    case (Cons y b')
    show ?thesis using Cons.IH[of b'] Cons js_not_both[of x y] js_not_both[of y x]
      by (auto simp add: js_gt_lt[of y x] js_gt_lt[of x y] Let_def)
  qed
qed

text \<open>
  C7. For all hands \<open>hA\<close>, \<open>hB\<close> and every board (of any length, with or without
  repeated cards, so in particular for two-card hands and a five-card board over distinct
  cards), \<open>compareHands(hA, hB, board)\<close> is the negation of
  \<open>compareHands(hB, hA, board)\<close>, and it is 0 in one direction exactly when it is 0 in
  the other.
\<close>

theorem compareHands_antisymmetric:
  "compareHands hA hB bd = - compareHands hB hA bd
   \<and> (compareHands hA hB bd = 0 \<longleftrightarrow> compareHands hB hA bd = 0)"
proof -
  have a: "compareHands hA hB bd = - compareHands hB hA bd"
    using lex_loop_antisym[of "values_of (evaluateHand (hA @ bd))"
                              "values_of (evaluateHand (hB @ bd))"]
    by (simp add: compareHands_def Let_def)
  then show ?thesis by auto
qed

theorem compareHands_antisymmetric_witness:
  "compareHands [\<lparr>rank = R6, suit = Spades\<rparr>, \<lparr>rank = R9, suit = Clubs\<rparr>]
                [\<lparr>rank = RA, suit = Spades\<rparr>, \<lparr>rank = R9, suit = Hearts\<rparr>]
                [\<lparr>rank = R2, suit = Hearts\<rparr>, \<lparr>rank = R3, suit = Diamonds\<rparr>,
                 \<lparr>rank = R4, suit = Clubs\<rparr>, \<lparr>rank = R5, suit = Spades\<rparr>,
                 \<lparr>rank = RK, suit = Hearts\<rparr>] = 1
   \<and> compareHands [\<lparr>rank = RA, suit = Spades\<rparr>, \<lparr>rank = R9, suit = Hearts\<rparr>]
                [\<lparr>rank = R6, suit = Spades\<rparr>, \<lparr>rank = R9, suit = Clubs\<rparr>]
                [\<lparr>rank = R2, suit = Hearts\<rparr>, \<lparr>rank = R3, suit = Diamonds\<rparr>,
                 \<lparr>rank = R4, suit = Clubs\<rparr>, \<lparr>rank = R5, suit = Spades\<rparr>,
                 \<lparr>rank = RK, suit = Hearts\<rparr>] = - 1"
proof -
  have "compareHands [\<lparr>rank = R6, suit = Spades\<rparr>, \<lparr>rank = R9, suit = Clubs\<rparr>]
                [\<lparr>rank = RA, suit = Spades\<rparr>, \<lparr>rank = R9, suit = Hearts\<rparr>]
                [\<lparr>rank = R2, suit = Hearts\<rparr>, \<lparr>rank = R3, suit = Diamonds\<rparr>,
                 \<lparr>rank = R4, suit = Clubs\<rparr>, \<lparr>rank = R5, suit = Spades\<rparr>,
                 \<lparr>rank = RK, suit = Hearts\<rparr>] = 1"
    by code_simp
  then show ?thesis
    using compareHands_antisymmetric
            [of "[\<lparr>rank = RA, suit = Spades\<rparr>, \<lparr>rank = R9, suit = Hearts\<rparr>]"
                "[\<lparr>rank = R6, suit = Spades\<rparr>, \<lparr>rank = R9, suit = Clubs\<rparr>]"
                "[\<lparr>rank = R2, suit = Hearts\<rparr>, \<lparr>rank = R3, suit = Diamonds\<rparr>,
                  \<lparr>rank = R4, suit = Clubs\<rparr>, \<lparr>rank = R5, suit = Spades\<rparr>,
                  \<lparr>rank = RK, suit = Hearts\<rparr>]"]
    by simp
qed

section \<open>The starting-hand score\<close>

lemma rank_fraction_range:
  "0 \<le> (of_int (RANK_VALUES r) :: rat) / 14 \<and> (of_int (RANK_VALUES r) :: rat) / 14 \<le> 1"
  by (cases r) simp_all

text \<open>
  Rounding to a double. \<open>bit_length\<close> brackets a positive integer between two powers of
  two, so \<open>ilog2 x\<close> is an exponent with \<open>2^(ilog2 x) \<le> x\<close>; the nearest integer is at
  most a half away; hence a value in \<open>[0, 2)\<close> moves by at most \<open>2^-53\<close> when it is rounded,
  and stays non-negative.
\<close>

lemma bit_length_bounds:
  "0 < n \<Longrightarrow> 1 \<le> bit_length n \<and> 2 ^ nat (bit_length n - 1) \<le> n \<and> n < 2 ^ nat (bit_length n)"
proof (induction n rule: bit_length.induct)
  case (1 n)
  show ?case
  proof (cases "n div 2 = 0")
    case True
    then have "n = 1" using "1.prems" by presburger
    then show ?thesis by (simp add: bit_length.simps[of 1] bit_length.simps[of 0])
  next
    case False
    then have p: "0 < n div 2" using "1.prems" by presburger
    have ih: "1 \<le> bit_length (n div 2)" "2 ^ nat (bit_length (n div 2) - 1) \<le> n div 2"
        "n div 2 < 2 ^ nat (bit_length (n div 2))"
      using "1.IH" "1.prems" p by auto
    have b: "bit_length n = 1 + bit_length (n div 2)"
      using "1.prems" by (subst bit_length.simps) simp
    have s: "nat (bit_length n - 1) = Suc (nat (bit_length (n div 2) - 1))"
         "nat (bit_length n) = Suc (nat (bit_length (n div 2)))"
      using b ih(1) by simp_all
    have "2 * 2 ^ nat (bit_length (n div 2) - 1) \<le> 2 * (n div 2)" using ih(2) by simp
    also have "\<dots> \<le> n" by presburger
    finally have lo: "2 ^ nat (bit_length n - 1) \<le> n" unfolding s by simp
    have "n div 2 + 1 \<le> 2 ^ nat (bit_length (n div 2))" using ih(3) by simp
    then have "2 * (n div 2) + 2 \<le> 2 * 2 ^ nat (bit_length (n div 2))" by simp
    moreover have "n < 2 * (n div 2) + 2" by presburger
    ultimately have hi: "n < 2 ^ nat (bit_length n)" unfolding s by simp
    show ?thesis using b ih(1) lo hi by simp
  qed
qed

lemma quotient_of_pos:
  assumes "0 < x" and "quotient_of x = (p, q)"
  shows "0 < p" and "0 < q" and "x = of_int p / of_int q"
proof -
  show q: "0 < q" using assms(2) by (rule quotient_of_denom_pos)
  show x: "x = of_int p / of_int q" using assms(2) by (simp add: quotient_of_div)
  show "0 < p" using assms(1) q unfolding x by (simp add: zero_less_divide_iff)
qed

lemma powi_nat: "0 \<le> k \<Longrightarrow> (2::rat) powi k = 2 ^ nat k"
  by (simp add: power_int_def)

lemma ilog2_le:
  assumes "0 < x"
  shows "2 powi (ilog2 x) \<le> x"
proof -
  obtain p q where pq: "quotient_of x = (p, q)" by (cases "quotient_of x")
  note f = quotient_of_pos[OF assms pq]
  define k where "k = bit_length p - bit_length q"
  show ?thesis
  proof (cases "2 powi k \<le> x")
    case True
    then show ?thesis by (simp add: ilog2_def pq k_def)
  next
    case False
    then have i: "ilog2 x = k - 1" by (simp add: ilog2_def pq k_def)
    have bp: "1 \<le> bit_length p" "2 ^ nat (bit_length p - 1) \<le> p"
      using bit_length_bounds[OF f(1)] by simp_all
    have bq: "1 \<le> bit_length q" "q < 2 ^ nat (bit_length q)"
      using bit_length_bounds[OF f(2)] by simp_all
    have lo: "(2::rat) powi (bit_length p - 1) \<le> of_int p"
    proof -
      have "(of_int (2 ^ nat (bit_length p - 1)) :: rat) \<le> of_int p"
        using bp(2) by (simp only: of_int_le_iff)
      then show ?thesis using bp(1) by (simp add: powi_nat)
    qed
    have hi: "(of_int q :: rat) \<le> 2 powi (bit_length q)"
    proof -
      have "(of_int q :: rat) \<le> of_int (2 ^ nat (bit_length q))"
        using bq(2) by simp
      then show ?thesis using bq(1) by (simp add: powi_nat)
    qed
    have "(2::rat) powi (k - 1) = 2 powi (bit_length p - 1) / 2 powi (bit_length q)"
      unfolding k_def by (simp add: power_int_diff)
    also have "\<dots> \<le> of_int p / 2 powi (bit_length q)"
      using lo by (simp add: divide_right_mono)
    also have "\<dots> \<le> of_int p / of_int q"
      using hi f(1,2) by (simp add: frac_le)
    finally have "(2::rat) powi (k - 1) \<le> x" unfolding f(3)[symmetric] .
    then show ?thesis unfolding i .
  qed
qed

lemma round_even_close: "\<bar>of_int (round_even y) - y\<bar> \<le> 1 / 2"
proof -
  have "of_int \<lfloor>y\<rfloor> \<le> y" "y < of_int \<lfloor>y\<rfloor> + 1" by linarith+
  then show ?thesis unfolding round_even_def Let_def by (auto simp add: abs_le_iff) 
qed

lemma round_even_nonneg: "0 \<le> y \<Longrightarrow> 0 \<le> round_even y"
  unfolding round_even_def Let_def by (auto simp add: zero_le_floor intro: add_nonneg_nonneg)

lemma double_nonneg: "0 \<le> x \<Longrightarrow> 0 \<le> double x"
  unfolding double_def Let_def
  by (auto intro!: mult_nonneg_nonneg round_even_nonneg divide_nonneg_pos simp add: less_imp_le)

lemma double_close:
  assumes "0 \<le> x" and "x < 2"
  shows "\<bar>double x - x\<bar> \<le> 1 / 2 ^ 53"
proof (cases "x = 0")
  case True
  then show ?thesis by (simp add: double_def)
next
  case False
  then have pos: "0 < x" using assms(1) by simp
  define e where "e = max (ilog2 \<bar>x\<bar> - 52) (- 1074)"
  have "(2::rat) powi (ilog2 x) \<le> x" using pos by (rule ilog2_le)
  then have "(2::rat) powi (ilog2 x) < 2 powi 1" using assms(2) by simp
  then have "ilog2 x < 1"
  proof (rule contrapos_pp)
    assume "\<not> ilog2 x < 1"
    then have "(2::rat) powi 1 \<le> 2 powi (ilog2 x)" by (intro power_int_increasing) simp_all
    then show "\<not> (2::rat) powi (ilog2 x) < 2 powi 1" by simp
  qed
  then have e: "e \<le> - 52" using pos by (simp add: e_def)
  have q: "(2::rat) powi e \<le> 2 powi (- 52)" using e by (intro power_int_increasing) simp_all
  have qp: "0 < (2::rat) powi e" by simp
  have d: "double x = of_int (round_even (x / 2 powi e)) * 2 powi e"
    using False by (simp add: double_def e_def Let_def)
  have "double x - x = (of_int (round_even (x / 2 powi e)) - x / 2 powi e) * 2 powi e"
    unfolding d using qp by (simp add: algebra_simps)
  then have "\<bar>double x - x\<bar> = \<bar>of_int (round_even (x / 2 powi e)) - x / 2 powi e\<bar> * 2 powi e"
    using qp by (simp add: abs_mult)
  also have "\<dots> \<le> (1 / 2) * 2 powi e"
    using round_even_close[of "x / 2 powi e"] qp by (intro mult_right_mono) simp_all
  also have "\<dots> \<le> (1 / 2) * 2 powi (- 52)" using q by simp
  also have "\<dots> = 1 / 2 ^ 53" by (simp add: power_int_minus)
  finally show ?thesis .
qed

text \<open>
  The rounded value is a double. \<open>ilog2 x\<close> is the exponent with
  \<open>2^(ilog2 x) \<le> x < 2^(ilog2 x + 1)\<close>, so in the normal range the value returned by
  \<open>double\<close> is \<open>m * 2^(ilog2 x - 52)\<close> with a significand \<open>m\<close> of 53 bits (or
  \<open>m = 2^53\<close>, the next power of two).
\<close>

lemma ilog2_less:
  assumes "0 < x"
  shows "x < 2 powi (ilog2 x + 1)"
proof -
  obtain p q where pq: "quotient_of x = (p, q)" by (cases "quotient_of x")
  note f = quotient_of_pos[OF assms pq]
  define k where "k = bit_length p - bit_length q"
  show ?thesis
  proof (cases "2 powi k \<le> x")
    case True
    then have i: "ilog2 x = k" by (simp add: ilog2_def pq k_def)
    have bp: "1 \<le> bit_length p" "p < 2 ^ nat (bit_length p)"
      using bit_length_bounds[OF f(1)] by simp_all
    have bq: "1 \<le> bit_length q" "2 ^ nat (bit_length q - 1) \<le> q"
      using bit_length_bounds[OF f(2)] by simp_all
    have hi: "(of_int p :: rat) < 2 powi (bit_length p)"
    proof -
      have "(of_int p :: rat) < of_int (2 ^ nat (bit_length p))"
        using bp(2) by (simp only: of_int_less_iff)
      then show ?thesis using bp(1) by (simp add: powi_nat)
    qed
    have lo: "(2::rat) powi (bit_length q - 1) \<le> of_int q"
    proof -
      have "(of_int (2 ^ nat (bit_length q - 1)) :: rat) \<le> of_int q"
        using bq(2) by (simp only: of_int_le_iff)
      then show ?thesis using bq(1) by (simp add: powi_nat)
    qed
    have qp: "(0::rat) < 2 powi (bit_length q - 1)" by simp
    have "x = of_int p / of_int q" by (rule f(3))
    also have "\<dots> \<le> of_int p / 2 powi (bit_length q - 1)"
      using lo f(1) qp by (intro frac_le) simp_all
    also have "\<dots> < 2 powi (bit_length p) / 2 powi (bit_length q - 1)"
      using hi qp by (intro divide_strict_right_mono)
    also have "\<dots> = 2 powi (bit_length p - (bit_length q - 1))"
      by (rule power_int_diff[symmetric]) simp
    also have "bit_length p - (bit_length q - 1) = k + 1" by (simp add: k_def)
    finally show ?thesis unfolding i .
  next
    case False
    then have i: "ilog2 x = k - 1" by (simp add: ilog2_def pq k_def)
    show ?thesis using False unfolding i by simp
  qed
qed

lemma double_significand:
  assumes "0 < x" and "- 1022 \<le> ilog2 x"
  shows "\<exists>m. double x = of_int m * 2 powi (ilog2 x - 52) \<and> 2 ^ 52 \<le> m \<and> m \<le> 2 ^ 53"
proof -
  define e where "e = ilog2 x - 52"
  define y where "y = x / 2 powi e"
  have qp: "(0::rat) < 2 powi e" by simp
  have ax: "\<bar>x\<bar> = x" using assms(1) by simp
  have m: "max (ilog2 x - 52) (- 1074) = e" using assms(2) by (simp add: e_def max_def)
  have d: "double x = of_int (round_even y) * 2 powi e"
    unfolding double_def Let_def ax m y_def using assms(1) by simp
  have "2 powi (ilog2 x) / 2 powi e \<le> y"
    unfolding y_def using ilog2_le[OF assms(1)] qp by (intro divide_right_mono) simp_all
  then have lo: "2 ^ 52 \<le> y" by (simp add: e_def power_int_diff flip: power_int_diff)
  have "y < 2 powi (ilog2 x + 1) / 2 powi e"
    unfolding y_def using ilog2_less[OF assms(1)] qp by (intro divide_strict_right_mono)
  also have "\<dots> = 2 powi 53" unfolding e_def by (simp flip: power_int_diff)
  finally have hi: "y < 2 ^ 53" by simp
  have fl: "2 ^ 52 \<le> \<lfloor>y\<rfloor>" "\<lfloor>y\<rfloor> < 2 ^ 53"
  proof -
    have "of_int (2 ^ 52) \<le> y" using lo by simp
    then show "2 ^ 52 \<le> \<lfloor>y\<rfloor>" by (simp only: le_floor_iff)
    have "y < of_int (2 ^ 53)" using hi by simp
    then show "\<lfloor>y\<rfloor> < 2 ^ 53" by (simp only: floor_less_iff)
  qed
  have r: "\<lfloor>y\<rfloor> \<le> round_even y" "round_even y \<le> \<lfloor>y\<rfloor> + 1"
    unfolding round_even_def Let_def by simp_all
  have "2 ^ 52 \<le> round_even y" "round_even y \<le> 2 ^ 53" using fl r by linarith+
  then show ?thesis using d unfolding e_def by blast
qed

text \<open>
  The error of the whole computation. Every intermediate value of \<open>startingHandStrength\<close>
  lies in \<open>[0, 2)\<close>, so each of its roundings moves the value by at most \<open>2^-53\<close>: the
  pair formula is within \<open>2^-49\<close> of its exact value, the sum of the two rank terms
  within \<open>8 * 2^-53\<close>, and each bonus adds at most \<open>2 * 2^-53\<close>. The pair score is at
  most 1 for each of the thirteen ranks (for aces the exact sum of the doubles nearest to
  0.8 and 0.2 is above 1 and rounds to 1).
\<close>

lemma double_step:
  assumes "0 \<le> x" and "x < 2"
  shows "0 \<le> double x" and "double x \<le> x + 1 / 2 ^ 53" and "x - 1 / 2 ^ 53 \<le> double x"
proof -
  note c = double_close[OF assms]
  show "0 \<le> double x" using assms(1) by (rule double_nonneg)
  show "double x \<le> x + 1 / 2 ^ 53" using c by linarith
  show "x - 1 / 2 ^ 53 \<le> double x" using c by linarith
qed

lemma product_close:
  fixes a c A C u :: rat
  assumes a: "0 \<le> a" "a \<le> 3 / 2" "\<bar>a - A\<bar> \<le> u"
    and c: "0 \<le> c" "\<bar>c - C\<bar> \<le> u" and C: "0 \<le> C" "C \<le> 1" "c \<le> 1"
  shows "0 \<le> a * c" and "a * c \<le> 3 / 2" and "\<bar>a * c - A * C\<bar> \<le> 3 / 2 * u + C * u"
proof -
  show "0 \<le> a * c" using a(1) c(1) by simp
  have "a * c \<le> 3 / 2 * 1" using a(1,2) c(1) C(3) by (intro mult_mono) simp_all
  then show "a * c \<le> 3 / 2" by simp
  have u: "0 \<le> u" using a(3) by linarith
  have e: "a * c - A * C = a * (c - C) + C * (a - A)" by (simp add: algebra_simps)
  have "\<bar>a * (c - C)\<bar> = a * \<bar>c - C\<bar>" using a(1) by (simp add: abs_mult)
  also have "\<dots> \<le> 3 / 2 * u" using a(1,2) c(2) u by (intro mult_mono) simp_all
  finally have 1: "\<bar>a * (c - C)\<bar> \<le> 3 / 2 * u" .
  have "\<bar>C * (a - A)\<bar> = C * \<bar>a - A\<bar>" using C(1) by (simp add: abs_mult)
  also have "\<dots> \<le> C * u" using a(3) C(1) by (intro mult_left_mono) simp_all
  finally have 2: "\<bar>C * (a - A)\<bar> \<le> C * u" .
  show "\<bar>a * c - A * C\<bar> \<le> 3 / 2 * u + C * u" unfolding e using 1 2 by linarith
qed

lemma pair_score_close:
  fixes A :: rat
  assumes "0 \<le> A" and "A \<le> 1"
  shows "0 \<le> double (double (double A * double (8 / 10)) + double (2 / 10))"
    and "\<bar>double (double (double A * double (8 / 10)) + double (2 / 10)) - (2 / 10 + 8 / 10 * A)\<bar>
           < 1 / 2 ^ 49"
proof -
  define u :: rat where "u = 1 / 2 ^ 53"
  have u: "0 < u" "u \<le> 1 / 1000" "16 * u = 1 / 2 ^ 49" by (simp_all add: u_def)
  define a where "a = double A"
  define c8 where "c8 = double (8 / 10)"
  define c2 where "c2 = double (2 / 10)"
  define b where "b = double (a * c8)"
  define s where "s = double (b + c2)"
  have "A < 2" using assms(2) by linarith
  note a = double_step[OF assms(1) this, folded u_def a_def]
  note c8 = double_step[of "8 / 10", folded u_def c8_def]
  note c2 = double_step[of "2 / 10", folded u_def c2_def]
  have a1: "a \<le> 3 / 2" "\<bar>a - A\<bar> \<le> u" using a assms u by linarith+
  have c81: "0 \<le> c8" "\<bar>c8 - 8 / 10\<bar> \<le> u" "c8 \<le> 1" using c8 u by linarith+
  have k: "(0::rat) \<le> 8 / 10" "(8 / 10 :: rat) \<le> 1" by simp_all
  note x = product_close[OF a(1) a1 c81(1,2) k c81(3)]
  have "a * c8 < 2" using x(2) by linarith
  note b = double_step[OF x(1) this, folded u_def b_def]
  have c21: "0 \<le> c2" "c2 \<le> 2 / 10 + u" "2 / 10 - u \<le> c2" using c2 by linarith+
  have y: "0 \<le> b + c2" "b + c2 < 2" using b c21 x(2) u by linarith+
  note s = double_step[OF y, folded u_def s_def]
  show "0 \<le> double (double (double A * double (8 / 10)) + double (2 / 10))"
    using s(1) unfolding s_def b_def a_def c8_def c2_def .
  have "\<bar>s - (2 / 10 + 8 / 10 * A)\<bar> < 16 * u"
    using s b c21 x(3) u(1) by linarith
  then show "\<bar>double (double (double A * double (8 / 10)) + double (2 / 10)) - (2 / 10 + 8 / 10 * A)\<bar>
           < 1 / 2 ^ 49"
    unfolding s_def b_def a_def c8_def c2_def u(3) .
qed

lemma pair_score_le_1:
  "double (double (double (of_int (RANK_VALUES r) / 14) * double (8 / 10)) + double (2 / 10)) \<le> 1"
  by (cases r; hypsubst_thin; code_simp)

lemma base_score_close:
  fixes H L :: rat
  assumes "0 \<le> H" and "H \<le> 1" and "0 \<le> L" and "L \<le> 1"
  shows "0 \<le> double (double (0 + double (double H * double (5 / 10)))
                 + double (double L * double (1 / 10)))"
    and "\<bar>double (double (0 + double (double H * double (5 / 10)))
                 + double (double L * double (1 / 10)))
          - (5 / 10 * H + 1 / 10 * L)\<bar> \<le> 8 / 2 ^ 53"
proof -
  define u :: rat where "u = 1 / 2 ^ 53"
  have u: "0 < u" "u \<le> 1 / 1000" "8 * u = 8 / 2 ^ 53" by (simp_all add: u_def)
  define aH where "aH = double H"
  define aL where "aL = double L"
  define c5 where "c5 = double (5 / 10)"
  define c1 where "c1 = double (1 / 10)"
  define pH where "pH = double (aH * c5)"
  define s0 where "s0 = double (0 + pH)"
  define pL where "pL = double (aL * c1)"
  define s1 where "s1 = double (s0 + pL)"
  have "H < 2" "L < 2" using assms by linarith+
  note aH = double_step[OF assms(1) \<open>H < 2\<close>, folded u_def aH_def]
  note aL = double_step[OF assms(3) \<open>L < 2\<close>, folded u_def aL_def]
  note c5 = double_step[of "5 / 10", folded u_def c5_def]
  note c1 = double_step[of "1 / 10", folded u_def c1_def]
  have aH1: "aH \<le> 3 / 2" "\<bar>aH - H\<bar> \<le> u" using aH assms u by linarith+
  have aL1: "aL \<le> 3 / 2" "\<bar>aL - L\<bar> \<le> u" using aL assms u by linarith+
  have c51: "0 \<le> c5" "\<bar>c5 - 5 / 10\<bar> \<le> u" "c5 \<le> 1" using c5 u by linarith+
  have c11: "0 \<le> c1" "\<bar>c1 - 1 / 10\<bar> \<le> u" "c1 \<le> 1" using c1 u by linarith+
  have k5: "(0::rat) \<le> 5 / 10" "(5 / 10 :: rat) \<le> 1" by simp_all
  have k1: "(0::rat) \<le> 1 / 10" "(1 / 10 :: rat) \<le> 1" by simp_all
  note xH = product_close[OF aH(1) aH1 c51(1,2) k5 c51(3)]
  note xL = product_close[OF aL(1) aL1 c11(1,2) k1 c11(3)]
  have "aH * c5 < 2" "aL * c1 < 2" using xH(2) xL(2) by linarith+
  note pH = double_step[OF xH(1) \<open>aH * c5 < 2\<close>, folded u_def pH_def]
  note pL = double_step[OF xL(1) \<open>aL * c1 < 2\<close>, folded u_def pL_def]
  have pHb: "pH \<le> 5 / 10 + 3 * u" "\<bar>pH - H * (5 / 10)\<bar> \<le> 3 * u"
    using pH xH(3) assms u(1) by linarith+
  have pLb: "pL \<le> 1 / 10 + 3 * u" "\<bar>pL - L * (1 / 10)\<bar> \<le> 3 * u"
    using pL xL(3) assms u(1) by linarith+
  have y0: "0 \<le> 0 + pH" "0 + pH < 2" using pH(1) pHb(1) u by linarith+
  note s0 = double_step[OF y0, folded u_def s0_def]
  have y1: "0 \<le> s0 + pL" "s0 + pL < 2" using s0 pL(1) pHb(1) pLb(1) u by linarith+
  note s1 = double_step[OF y1, folded u_def s1_def]
  show "0 \<le> double (double (0 + double (double H * double (5 / 10)))
                 + double (double L * double (1 / 10)))"
    using s1(1) unfolding s1_def s0_def pH_def pL_def aH_def aL_def c5_def c1_def .
  have "\<bar>s1 - (5 / 10 * H + 1 / 10 * L)\<bar> \<le> 8 * u"
    using s1 s0 pHb(2) pLb(2) by linarith
  then show "\<bar>double (double (0 + double (double H * double (5 / 10)))
                 + double (double L * double (1 / 10)))
          - (5 / 10 * H + 1 / 10 * L)\<bar> \<le> 8 / 2 ^ 53"
    unfolding s1_def s0_def pH_def pL_def aH_def aL_def c5_def c1_def u(3) .
qed

lemma bonus_close:
  fixes s E e C :: rat
  assumes "0 \<le> s" and "\<bar>s - E\<bar> \<le> e" and "E + e \<le> 3 / 2" and "0 \<le> C" and "C \<le> 1 / 4"
  shows "0 \<le> double (s + double C)"
    and "\<bar>double (s + double C) - (E + C)\<bar> \<le> e + 2 / 2 ^ 53"
proof -
  define u :: rat where "u = 1 / 2 ^ 53"
  have u: "0 < u" "u \<le> 1 / 1000" "2 * u = 2 / 2 ^ 53" by (simp_all add: u_def)
  define c where "c = double C"
  define t where "t = double (s + c)"
  have "C < 2" using assms(5) by linarith
  note c = double_step[OF assms(4) this, folded u_def c_def]
  have y: "0 \<le> s + c" "s + c < 2" using assms c u by linarith+
  note t = double_step[OF y, folded u_def t_def]
  show "0 \<le> double (s + double C)" using t(1) unfolding t_def c_def .
  have "\<bar>t - (E + C)\<bar> \<le> e + 2 * u" using t c assms(2) by linarith
  then show "\<bar>double (s + double C) - (E + C)\<bar> \<le> e + 2 / 2 ^ 53"
    unfolding t_def c_def u(3) .
qed

text \<open>
  C8, as the code has it (counterexample to the claim as stated). The scores are not
  exactly the stated values, because the arithmetic is in doubles. For the suited queen
  and three the stated score is \<open>0.5 (12/14) + 0.1 (3/14) + 0.1 = 11/20\<close>; the code returns
  the double \<open>4953959590107545 / 2^53\<close>, printed \<open>0.5499999999999999\<close>, which is below 0.55.
\<close>

theorem suited_queen_three_counterexample:
  "startingHandStrength [\<lparr>rank = RQ, suit = Spades\<rparr>, \<lparr>rank = R3, suit = Spades\<rparr>]
     = Some (4953959590107545 / 9007199254740992)
   \<and> stated_strength (RANK_VALUES RQ) (RANK_VALUES R3) True = 11 / 20
   \<and> (4953959590107545 / 9007199254740992 :: rat) < 11 / 20"
  by code_simp

text \<open>
  C8, amended. For every input with at least two cards, \<open>startingHandStrength\<close> returns
  a score that lies in \<open>[0, 1]\<close> and differs by less than \<open>2^-49\<close> from the stated value:
  \<open>0.2 + 0.8 (rank / 14)\<close> for a pair; for a non-pair
  \<open>0.5 (highRank / 14) + 0.1 (lowRank / 14)\<close>, plus 0.1 if suited, plus 0.1 if the ranks
  differ by 1, plus 0.05 if they differ by 2, capped at 1. The score is the stated formula
  evaluated in double-precision arithmetic, not its exact value.
\<close>

theorem startingHandStrength_rounds_stated_score:
  "\<exists>s. startingHandStrength (c0 # c1 # cs) = Some s \<and> 0 \<le> s \<and> s \<le> 1
       \<and> \<bar>s - stated_strength (RANK_VALUES (rank c0)) (RANK_VALUES (rank c1)) (suit c0 = suit c1)\<bar>
           < 1 / 2 ^ 49"
proof -
  define r1 where "r1 = RANK_VALUES (rank c0)"
  define r2 where "r2 = RANK_VALUES (rank c1)"
  define suited where "suited = (suit c0 = suit c1)"
  have f1: "0 \<le> (of_int r1 :: rat) / 14" "(of_int r1 :: rat) / 14 \<le> 1"
    using rank_fraction_range[of "rank c0"] by (simp_all add: r1_def)
  have f2: "0 \<le> (of_int r2 :: rat) / 14" "(of_int r2 :: rat) / 14 \<le> 1"
    using rank_fraction_range[of "rank c1"] by (simp_all add: r2_def)
  show ?thesis
  proof (cases "r1 = r2")
    case True
    define s where "s = double (double (double (of_int r1 / 14) * double (8 / 10)) + double (2 / 10))"
    have v: "startingHandStrength (c0 # c1 # cs) = Some s"
      using True by (simp add: s_def r1_def r2_def Let_def)
    have st: "stated_strength r1 r2 suited = 2 / 10 + 8 / 10 * (of_int r1 / 14)"
      using True by (simp add: stated_strength_def)
    have "0 \<le> s" unfolding s_def using f1 by (rule pair_score_close(1))
    moreover have "s \<le> 1" unfolding s_def r1_def by (rule pair_score_le_1)
    moreover have "\<bar>s - stated_strength r1 r2 suited\<bar> < 1 / 2 ^ 49"
      unfolding s_def st using f1 by (rule pair_score_close(2))
    ultimately show ?thesis using v unfolding r1_def r2_def suited_def by blast
  next
    case False
    define H :: rat where "H = of_int (max r1 r2) / 14"
    define L :: rat where "L = of_int (min r1 r2) / 14"
    define S :: rat where "S = (if suited then 1 / 10 else 0)"
    define D :: rat where "D = (if \<bar>r1 - r2\<bar> = 1 then 1 / 10 else if \<bar>r1 - r2\<bar> = 2 then 5 / 100 else 0)"
    define score1 where "score1 = double (double (0 + double (double H * double (5 / 10)))
                 + double (double L * double (1 / 10)))"
    define score2 where "score2 = (if suited then double (score1 + double (1 / 10)) else score1)"
    define score3 where "score3 = (if \<bar>r1 - r2\<bar> = 1 then double (score2 + double (1 / 10))
                          else if \<bar>r1 - r2\<bar> = 2 then double (score2 + double (5 / 100)) else score2)"
    have v: "startingHandStrength (c0 # c1 # cs) = Some (min score3 1)"
      using False
      by (simp add: score3_def score2_def score1_def H_def L_def suited_def r1_def r2_def Let_def)
    have H: "0 \<le> H" "H \<le> 1" using f1 f2 by (simp_all add: H_def max_def)
    have L: "0 \<le> L" "L \<le> 1" using f1 f2 by (simp_all add: L_def min_def)
    have S: "0 \<le> S" "S \<le> 1 / 10" by (simp_all add: S_def)
    have D: "0 \<le> D" "D \<le> 1 / 10" by (simp_all add: D_def)
    define E1 :: rat where "E1 = 5 / 10 * H + 1 / 10 * L"
    have E1: "E1 \<le> 6 / 10" using H L unfolding E1_def by linarith
    have s1: "0 \<le> score1" "\<bar>score1 - E1\<bar> \<le> 8 / 2 ^ 53"
      unfolding score1_def E1_def using H L by (rule base_score_close)+
    have s2: "0 \<le> score2 \<and> \<bar>score2 - (E1 + S)\<bar> \<le> 10 / 2 ^ 53"
    proof (cases suited)
      case True
      have k: "E1 + 8 / 2 ^ 53 \<le> 3 / 2" "(0::rat) \<le> 1 / 10" "(1 / 10 :: rat) \<le> 1 / 4"
        using E1 by simp_all
      note b = bonus_close[OF s1 k]
      show ?thesis using True b by (simp add: score2_def S_def)
    next
      case False
      then show ?thesis using s1 by (simp add: score2_def S_def)
    qed
    have k2: "E1 + S + 10 / 2 ^ 53 \<le> 3 / 2" using E1 S by simp
    have s3: "0 \<le> score3 \<and> \<bar>score3 - (E1 + S + D)\<bar> \<le> 12 / 2 ^ 53"
    proof (cases "\<bar>r1 - r2\<bar> = 1")
      case True
      have k: "(0::rat) \<le> 1 / 10" "(1 / 10 :: rat) \<le> 1 / 4" by simp_all
      note b = bonus_close[OF conjunct1[OF s2] conjunct2[OF s2] k2 k]
      show ?thesis using True b by (simp add: score3_def D_def)
    next
      case n1: False
      show ?thesis
      proof (cases "\<bar>r1 - r2\<bar> = 2")
        case True
        have k: "(0::rat) \<le> 5 / 100" "(5 / 100 :: rat) \<le> 1 / 4" by simp_all
        note b = bonus_close[OF conjunct1[OF s2] conjunct2[OF s2] k2 k]
        show ?thesis using True n1 b by (simp add: score3_def D_def)
      next
        case False
        then show ?thesis using n1 s2 by (simp add: score3_def D_def)
      qed
    qed
    have E: "E1 + S + D \<le> 8 / 10" using E1 S D by linarith
    have s3b: "\<bar>score3 - (E1 + S + D)\<bar> \<le> 12 / 2 ^ 53" using s3 by (rule conjunct2)
    have small: "(12 :: rat) / 2 ^ 53 < 1 / 2 ^ 49" "(12 :: rat) / 2 ^ 53 < 1 / 10" by simp_all
    have lt: "score3 < 1" using s3b E small(2) by linarith
    have m: "min score3 1 = score3" using lt by simp
    have st: "stated_strength r1 r2 suited = E1 + S + D"
      using False E by (simp add: stated_strength_def E1_def S_def D_def H_def L_def)
    have "0 \<le> min score3 1" unfolding m using s3 by (rule conjunct1)
    moreover have "min score3 1 \<le> 1" by simp
    moreover have "\<bar>min score3 1 - stated_strength r1 r2 suited\<bar> < 1 / 2 ^ 49"
      unfolding st m using s3b small(1) by linarith
    ultimately show ?thesis using v unfolding r1_def r2_def suited_def by blast
  qed
qed

text \<open>
  Witness for C8: the suited ace and queen, whose stated score is
  \<open>0.5 (14/14) + 0.1 (12/14) + 0.1 + 0.05 = 103/140\<close>.
\<close>

theorem startingHandStrength_rounds_stated_score_witness:
  "\<exists>s. startingHandStrength [\<lparr>rank = RA, suit = Spades\<rparr>, \<lparr>rank = RQ, suit = Spades\<rparr>] = Some s
       \<and> 0 \<le> s \<and> s \<le> 1 \<and> \<bar>s - 103 / 140\<bar> < 1 / 2 ^ 49"
proof -
  have e: "stated_strength (RANK_VALUES (rank \<lparr>rank = RA, suit = Spades\<rparr>))
             (RANK_VALUES (rank \<lparr>rank = RQ, suit = Spades\<rparr>))
             (suit \<lparr>rank = RA, suit = Spades\<rparr> = suit \<lparr>rank = RQ, suit = Spades\<rparr>) = 103 / 140"
    by code_simp
  show ?thesis
    using startingHandStrength_rounds_stated_score
            [of "\<lparr>rank = RA, suit = Spades\<rparr>" "\<lparr>rank = RQ, suit = Spades\<rparr>" "[]"]
    unfolding e .
qed

section \<open>The showdown: a tie\<close>

text \<open>
  C10. When nobody has folded and the comparison is a tie, \<open>goToShowdown\<close> adds exactly
  \<open>pot / 2\<close> to each stack and leaves \<open>pot\<close> as it is; the two gains sum to the pot;
  and when the pot is an odd number of chips \<open>2 k + 1\<close>, each gain is \<open>k\<close> chips and a
  half.
\<close>

theorem tie_splits_pot_in_halves:
  assumes "\<not> folded (player gs)" and "\<not> folded (opponent gs)"
    and "compareHands (cards (player gs)) (cards (opponent gs)) (board gs) = 0"
  shows "stack (player (goToShowdown gs)) = stack (player gs) + pot gs / 2
       \<and> stack (opponent (goToShowdown gs)) = stack (opponent gs) + pot gs / 2
       \<and> (stack (player (goToShowdown gs)) - stack (player gs))
         + (stack (opponent (goToShowdown gs)) - stack (opponent gs)) = pot gs
       \<and> pot (goToShowdown gs) = pot gs
       \<and> (\<forall>k::int. pot gs = of_int (2 * k + 1) \<longrightarrow>
             stack (player (goToShowdown gs)) - stack (player gs) = of_int k + 1 / 2
           \<and> stack (opponent (goToShowdown gs)) - stack (opponent gs) = of_int k + 1 / 2)"
proof -
  have p: "stack (player (goToShowdown gs)) = stack (player gs) + pot gs / 2"
    using assms by (simp add: goToShowdown_def Let_def)
  have o: "stack (opponent (goToShowdown gs)) = stack (opponent gs) + pot gs / 2"
    using assms by (simp add: goToShowdown_def Let_def)
  have q: "pot (goToShowdown gs) = pot gs"
    using assms by (simp add: goToShowdown_def Let_def)
  show ?thesis unfolding p o q by (simp add: add_divide_distrib)
qed

theorem tie_splits_pot_in_halves_witness:
  "pot tieState = 151
   \<and> stack (player (goToShowdown tieState)) = 9900 + 151 / 2
   \<and> stack (opponent (goToShowdown tieState)) = 9949 + 151 / 2
   \<and> stack (player (goToShowdown tieState)) - stack (player tieState) = 75 + 1 / 2"
proof -
  have f: "\<not> folded (player tieState)" "\<not> folded (opponent tieState)"
    by (simp_all add: tieState_def)
  have t: "compareHands (cards (player tieState)) (cards (opponent tieState)) (board tieState) = 0"
    by code_simp
  have v: "pot tieState = 151" "stack (player tieState) = 9900" "stack (opponent tieState) = 9949"
    by (simp_all add: tieState_def)
  show ?thesis using tie_splits_pot_in_halves [OF f t] v by simp
qed

section \<open>The betting state machine: chips\<close>

lemma bet_fields [simp]:
  "stage (bet w a gs) = stage gs" "deck (bet w a gs) = deck gs" "board (bet w a gs) = board gs"
  "button (bet w a gs) = button gs" "turn (bet w a gs) = turn gs"
  "folded (player (bet w a gs)) = folded (player gs)"
  "folded (opponent (bet w a gs)) = folded (opponent gs)"
  "cards (player (bet w a gs)) = cards (player gs)"
  "cards (opponent (bet w a gs)) = cards (opponent gs)"
  "bigBlind (bet w a gs) = bigBlind gs"
  "awaitingUser (bet w a gs) = awaitingUser gs" "aiTimers (bet w a gs) = aiTimers gs"
  by (cases w; simp add: bet_def Let_def)+

lemma bet_chips [simp]: "chips (bet w a gs) = chips gs"
  by (cases w) (simp_all add: bet_def Let_def chips_def)

lemma deal_length: "deal cs = (c, rest) \<Longrightarrow> cs \<noteq> [] \<Longrightarrow> c = Some (last cs) \<and> rest = butlast cs"
  by (simp add: deal_def)

lemma dealFlop_ok:
  assumes "4 \<le> length (deck gs)"
  shows "\<exists>a b c. dealFlop gs = Some (gs\<lparr>deck := butlast (butlast (butlast (butlast (deck gs)))),
            board := board gs @ [a, b, c], stage := Flop\<rparr>)"
proof -
  have n: "deck gs \<noteq> []" "butlast (deck gs) \<noteq> []" "butlast (butlast (deck gs)) \<noteq> []"
       "butlast (butlast (butlast (deck gs))) \<noteq> []"
    using assms by (auto simp flip: length_greater_0_conv)
  have "dealFlop gs = Some (gs\<lparr>deck := butlast (butlast (butlast (butlast (deck gs)))),
            board := board gs @ [last (butlast (deck gs)), last (butlast (butlast (deck gs))),
                                 last (butlast (butlast (butlast (deck gs))))],
            stage := Flop\<rparr>)"
    using n by (simp add: dealFlop_def deal_def)
  then show ?thesis by blast
qed

lemma dealTurn_ok:
  assumes "2 \<le> length (deck gs)"
  shows "\<exists>a. dealTurn gs = Some (gs\<lparr>deck := butlast (butlast (deck gs)),
            board := board gs @ [a], stage := Turn\<rparr>)"
proof -
  have n: "deck gs \<noteq> []" "butlast (deck gs) \<noteq> []"
    using assms by (auto simp flip: length_greater_0_conv)
  have "dealTurn gs = Some (gs\<lparr>deck := butlast (butlast (deck gs)),
            board := board gs @ [last (butlast (deck gs))], stage := Turn\<rparr>)"
    using n by (simp add: dealTurn_def deal_def)
  then show ?thesis by (rule exI)
qed

lemma dealRiver_ok:
  assumes "2 \<le> length (deck gs)"
  shows "\<exists>a. dealRiver gs = Some (gs\<lparr>deck := butlast (butlast (deck gs)),
            board := board gs @ [a], stage := River\<rparr>)"
proof -
  have n: "deck gs \<noteq> []" "butlast (deck gs) \<noteq> []"
    using assms by (auto simp flip: length_greater_0_conv)
  have "dealRiver gs = Some (gs\<lparr>deck := butlast (butlast (deck gs)),
            board := board gs @ [last (butlast (deck gs))], stage := River\<rparr>)"
    using n by (simp add: dealRiver_def deal_def)
  then show ?thesis by (rule exI)
qed

lemma goToShowdown_awards:
  "stage (goToShowdown gs) = Showdown" "stacks (goToShowdown gs) = stacks gs + pot gs"
  "pot (goToShowdown gs) = pot gs"
  by (simp_all add: goToShowdown_def Let_def stacks_def split: option.splits bool.splits)

lemma goToShowdown_awarded: "chips gs = tot \<Longrightarrow> awarded tot (goToShowdown gs)"
  by (simp add: awarded_def goToShowdown_awards) (simp add: chips_def stacks_def)

lemma nextAction_in_play:
  "in_play tot gs \<Longrightarrow> in_play tot (nextAction gs)"
  by (simp add: in_play_def nextAction_def chips_def)

lemma nextAction_awarded:
  "awarded tot gs \<Longrightarrow> \<not> folded (player gs) \<Longrightarrow> \<not> folded (opponent gs) \<Longrightarrow> awarded tot (nextAction gs)"
  by (simp add: awarded_def nextAction_def stacks_def)


lemma advanceOrSwitch_in_play:
  assumes ip: "in_play tot gs"
  shows "\<exists>gs'. advanceOrSwitch gs = Some gs' \<and> (in_play tot gs' \<or> awarded tot gs')"
proof (cases "currentBet (player gs) = currentBet (opponent gs)")
  case False
  have "in_play tot (gs\<lparr>turn := (if turn gs = Player then Opponent else Player)\<rparr>)"
    using ip by (simp add: in_play_def chips_def)
  then show ?thesis using False nextAction_in_play by (simp add: advanceOrSwitch_def)
next
  case True
  define gs1 where "gs1 = gs\<lparr>player := (player gs)\<lparr>currentBet := 0\<rparr>,
                            opponent := (opponent gs)\<lparr>currentBet := 0\<rparr>\<rparr>"
  have ip1: "in_play tot gs1" using ip by (simp add: in_play_def chips_def gs1_def)
  have st1: "stage gs1 = stage gs" by (simp add: gs1_def)
  have fin: "\<exists>gs'. advanceOrSwitch gs = Some gs' \<and> (in_play tot gs' \<or> awarded tot gs')"
    if a: "(case stage gs1 of Preflop \<Rightarrow> dealFlop gs1 | Flop \<Rightarrow> dealTurn gs1
            | Turn \<Rightarrow> dealRiver gs1 | River \<Rightarrow> Some (goToShowdown gs1)
            | Showdown \<Rightarrow> Some gs1) = Some gs2"
      and b: "in_play tot gs2 \<or> (awarded tot gs2 \<and> \<not> folded (player gs2) \<and> \<not> folded (opponent gs2))"
    for gs2
  proof -
    let ?g = "gs2\<lparr>turn := (if button gs2 = Player then Player else Opponent)\<rparr>"
    have e: "advanceOrSwitch gs = Some (nextAction ?g)"
      using True a unfolding advanceOrSwitch_def gs1_def Let_def by simp
    have "in_play tot ?g \<or> (awarded tot ?g \<and> \<not> folded (player ?g) \<and> \<not> folded (opponent ?g))"
      using b by (auto simp add: in_play_def awarded_def chips_def stacks_def)
    then have "in_play tot (nextAction ?g) \<or> awarded tot (nextAction ?g)"
      using nextAction_in_play nextAction_awarded by blast
    then show ?thesis using e by simp
  qed
  show ?thesis
  proof (cases "stage gs")
    case Preflop
    then have len: "8 \<le> length (deck gs1)" using ip1 st1 by (simp add: in_play_def cards_needed_def)
    then obtain a b c where d: "dealFlop gs1 = Some (gs1\<lparr>deck := butlast (butlast (butlast (butlast (deck gs1)))),
            board := board gs1 @ [a, b, c], stage := Flop\<rparr>)"
      using dealFlop_ok[of gs1] by auto
    have a: "(case stage gs1 of Preflop \<Rightarrow> dealFlop gs1 | Flop \<Rightarrow> dealTurn gs1
            | Turn \<Rightarrow> dealRiver gs1 | River \<Rightarrow> Some (goToShowdown gs1)
            | Showdown \<Rightarrow> Some gs1) = Some (gs1\<lparr>deck := butlast (butlast (butlast (butlast (deck gs1)))),
            board := board gs1 @ [a, b, c], stage := Flop\<rparr>)"
      using Preflop st1 d by simp
    have b: "in_play tot (gs1\<lparr>deck := butlast (butlast (butlast (butlast (deck gs1)))),
            board := board gs1 @ [a, b, c], stage := Flop\<rparr>)"
      using ip1 len by (simp add: in_play_def chips_def cards_needed_def)
    show ?thesis by (rule fin[OF a disjI1[OF b]])
  next
    case Flop
    then have len: "4 \<le> length (deck gs1)" using ip1 st1 by (simp add: in_play_def cards_needed_def)
    then obtain a where d: "dealTurn gs1 = Some (gs1\<lparr>deck := butlast (butlast (deck gs1)),
            board := board gs1 @ [a], stage := Turn\<rparr>)"
      using dealTurn_ok[of gs1] by auto
    have a: "(case stage gs1 of Preflop \<Rightarrow> dealFlop gs1 | Flop \<Rightarrow> dealTurn gs1
            | Turn \<Rightarrow> dealRiver gs1 | River \<Rightarrow> Some (goToShowdown gs1)
            | Showdown \<Rightarrow> Some gs1) = Some (gs1\<lparr>deck := butlast (butlast (deck gs1)),
            board := board gs1 @ [a], stage := Turn\<rparr>)"
      using Flop st1 d by simp
    have b: "in_play tot (gs1\<lparr>deck := butlast (butlast (deck gs1)),
            board := board gs1 @ [a], stage := Turn\<rparr>)"
      using ip1 len by (simp add: in_play_def chips_def cards_needed_def)
    show ?thesis by (rule fin[OF a disjI1[OF b]])
  next
    case Turn
    then have len: "2 \<le> length (deck gs1)" using ip1 st1 by (simp add: in_play_def cards_needed_def)
    then obtain a where d: "dealRiver gs1 = Some (gs1\<lparr>deck := butlast (butlast (deck gs1)),
            board := board gs1 @ [a], stage := River\<rparr>)"
      using dealRiver_ok[of gs1] by auto
    have a: "(case stage gs1 of Preflop \<Rightarrow> dealFlop gs1 | Flop \<Rightarrow> dealTurn gs1
            | Turn \<Rightarrow> dealRiver gs1 | River \<Rightarrow> Some (goToShowdown gs1)
            | Showdown \<Rightarrow> Some gs1) = Some (gs1\<lparr>deck := butlast (butlast (deck gs1)),
            board := board gs1 @ [a], stage := River\<rparr>)"
      using Turn st1 d by simp
    have b: "in_play tot (gs1\<lparr>deck := butlast (butlast (deck gs1)),
            board := board gs1 @ [a], stage := River\<rparr>)"
      using ip1 len by (simp add: in_play_def chips_def cards_needed_def)
    show ?thesis by (rule fin[OF a disjI1[OF b]])
  next
    case River
    have aw: "awarded tot (goToShowdown gs1)"
      using ip1 by (intro goToShowdown_awarded) (simp add: in_play_def)
    have nf: "\<not> folded (player (goToShowdown gs1))" "\<not> folded (opponent (goToShowdown gs1))"
      using ip1 by (simp_all add: in_play_def goToShowdown_def Let_def split: option.splits bool.splits)
    have a: "(case stage gs1 of Preflop \<Rightarrow> dealFlop gs1 | Flop \<Rightarrow> dealTurn gs1
            | Turn \<Rightarrow> dealRiver gs1 | River \<Rightarrow> Some (goToShowdown gs1)
            | Showdown \<Rightarrow> Some gs1) = Some (goToShowdown gs1)"
      using River st1 by simp
    show ?thesis by (rule fin[OF a disjI2]) (use aw nf in simp)
  next
    case Showdown
    then show ?thesis using ip by (simp add: in_play_def)
  qed
qed


lemma in_play_bet: "in_play tot gs \<Longrightarrow> in_play tot (bet w a gs)"
  by (simp add: in_play_def)

lemma userAction_in_play:
  assumes ip: "in_play tot gs"
  shows "\<exists>gs'. userAction act amt gs = Some gs' \<and> (in_play tot gs' \<or> awarded tot gs')"
proof -
  define g where "g = gs\<lparr>awaitingUser := False\<rparr>"
  have ipg: "in_play tot g" using ip by (simp add: in_play_def chips_def g_def)
  show ?thesis
  proof (cases act)
    case Fold
    have "chips (g\<lparr>player := (player g)\<lparr>folded := True\<rparr>\<rparr>) = tot"
      using ipg by (simp add: in_play_def chips_def)
    then have "awarded tot (goToShowdown (g\<lparr>player := (player g)\<lparr>folded := True\<rparr>\<rparr>))"
      by (rule goToShowdown_awarded)
    then show ?thesis using Fold by (simp add: userAction_def g_def Let_def)
  next
    case Check
    let ?c = "if max 0 (currentBet (opponent g) - currentBet (player g)) > 0
              then bet Player (max 0 (currentBet (opponent g) - currentBet (player g))) g else g"
    have "in_play tot ?c" using ipg in_play_bet by simp
    then have "\<exists>gs'. advanceOrSwitch ?c = Some gs' \<and> (in_play tot gs' \<or> awarded tot gs')"
      by (rule advanceOrSwitch_in_play)
    moreover have "userAction act amt gs = advanceOrSwitch ?c"
      using Check by (simp add: userAction_def g_def Let_def)
    ultimately show ?thesis by simp
  next
    case Allin
    have "in_play tot ((bet Player (stack (player g)) g)\<lparr>turn := Opponent\<rparr>)"
      using in_play_bet[OF ipg, of Player "stack (player g)"] by (simp add: in_play_def chips_def)
    then have "in_play tot (nextAction ((bet Player (stack (player g)) g)\<lparr>turn := Opponent\<rparr>))"
      by (rule nextAction_in_play)
    then show ?thesis using Allin by (simp add: userAction_def g_def Let_def)
  next
    case Raise
    let ?a = "max 0 (currentBet (opponent g) - currentBet (player g)) + amt"
    have "in_play tot ((bet Player ?a g)\<lparr>turn := Opponent\<rparr>)"
      using in_play_bet[OF ipg, of Player ?a] by (simp add: in_play_def chips_def)
    then have "in_play tot (nextAction ((bet Player ?a g)\<lparr>turn := Opponent\<rparr>))"
      by (rule nextAction_in_play)
    then show ?thesis using Raise by (simp add: userAction_def g_def Let_def)
  qed
qed

lemma aiAdvanceOrSwitch_in_play:
  assumes ip1: "in_play tot g1"
  shows "\<exists>gs'. aiAdvanceOrSwitch g1 = Some gs' \<and> (in_play tot gs' \<or> awarded tot gs')"
proof (cases "currentBet (player g1) = currentBet (opponent g1)")
  case False
  have "in_play tot (g1\<lparr>turn := Player\<rparr>)"
    using ip1 by (simp add: in_play_def chips_def)
  then show ?thesis using False nextAction_in_play by (simp add: aiAdvanceOrSwitch_def)
next
  case True
  define gs2 where "gs2 = g1\<lparr>player := (player g1)\<lparr>currentBet := 0\<rparr>,
                            opponent := (opponent g1)\<lparr>currentBet := 0\<rparr>\<rparr>"
  have ip2: "in_play tot gs2" using ip1 by (simp add: in_play_def chips_def gs2_def)
  have fin: "in_play tot (nextAction (gs3\<lparr>turn := (if button gs3 = Player then Player else Opponent)\<rparr>))"
    if "in_play tot gs3" for gs3
    using that by (intro nextAction_in_play) (simp add: in_play_def chips_def)
  show ?thesis
  proof (cases "stage gs2")
    case Preflop
    then have len: "8 \<le> length (deck gs2)" using ip2 by (simp add: in_play_def cards_needed_def)
    then obtain a b c where d: "dealFlop gs2 = Some (gs2\<lparr>deck := butlast (butlast (butlast (butlast (deck gs2)))),
            board := board gs2 @ [a, b, c], stage := Flop\<rparr>)"
      using dealFlop_ok[of gs2] by auto
    have "in_play tot (gs2\<lparr>deck := butlast (butlast (butlast (butlast (deck gs2)))),
            board := board gs2 @ [a, b, c], stage := Flop\<rparr>)"
      using ip2 len by (simp add: in_play_def chips_def cards_needed_def)
    from fin[OF this] show ?thesis using True Preflop d unfolding aiAdvanceOrSwitch_def gs2_def[symmetric] Let_def by simp
  next
    case Flop
    then have len: "4 \<le> length (deck gs2)" using ip2 by (simp add: in_play_def cards_needed_def)
    then obtain a where d: "dealTurn gs2 = Some (gs2\<lparr>deck := butlast (butlast (deck gs2)),
            board := board gs2 @ [a], stage := Turn\<rparr>)"
      using dealTurn_ok[of gs2] by auto
    have "in_play tot (gs2\<lparr>deck := butlast (butlast (deck gs2)),
            board := board gs2 @ [a], stage := Turn\<rparr>)"
      using ip2 len by (simp add: in_play_def chips_def cards_needed_def)
    from fin[OF this] show ?thesis using True Flop d unfolding aiAdvanceOrSwitch_def gs2_def[symmetric] Let_def by simp
  next
    case Turn
    then have len: "2 \<le> length (deck gs2)" using ip2 by (simp add: in_play_def cards_needed_def)
    then obtain a where d: "dealRiver gs2 = Some (gs2\<lparr>deck := butlast (butlast (deck gs2)),
            board := board gs2 @ [a], stage := River\<rparr>)"
      using dealRiver_ok[of gs2] by auto
    have "in_play tot (gs2\<lparr>deck := butlast (butlast (deck gs2)),
            board := board gs2 @ [a], stage := River\<rparr>)"
      using ip2 len by (simp add: in_play_def chips_def cards_needed_def)
    from fin[OF this] show ?thesis using True Turn d unfolding aiAdvanceOrSwitch_def gs2_def[symmetric] Let_def by simp
  next
    case River
    have "awarded tot (goToShowdown gs2)"
      using ip2 by (intro goToShowdown_awarded) (simp add: in_play_def)
    then show ?thesis using True River unfolding aiAdvanceOrSwitch_def gs2_def[symmetric] Let_def by simp
  next
    case Showdown
    then show ?thesis using ip2 by (simp add: in_play_def)
  qed
qed

lemma aiAction_in_play:
  assumes ip: "in_play tot gs"
  shows "\<exists>gs'. aiAction act amt gs = Some gs' \<and> (in_play tot gs' \<or> awarded tot gs')"
proof (cases act)
  case Fold
  have "chips (gs\<lparr>opponent := (opponent gs)\<lparr>folded := True\<rparr>\<rparr>) = tot"
    using ip by (simp add: in_play_def chips_def)
  then have "awarded tot (goToShowdown (gs\<lparr>opponent := (opponent gs)\<lparr>folded := True\<rparr>\<rparr>))"
    by (rule goToShowdown_awarded)
  then show ?thesis using Fold by (simp add: aiAction_def Let_def)
next
  case Check
  let ?c = "if max 0 (currentBet (player gs) - currentBet (opponent gs)) > 0
            then bet Opponent (max 0 (currentBet (player gs) - currentBet (opponent gs))) gs else gs"
  have e: "aiAction act amt gs = aiAdvanceOrSwitch ?c"
    using Check by (simp add: aiAction_def Let_def)
  have "in_play tot ?c" using ip in_play_bet by simp
  then show ?thesis unfolding e by (rule aiAdvanceOrSwitch_in_play)
next
  case Allin
  have e: "aiAction act amt gs = aiAdvanceOrSwitch (bet Opponent (stack (opponent gs)) gs)"
    using Allin by (simp add: aiAction_def Let_def)
  have "in_play tot (bet Opponent (stack (opponent gs)) gs)" using ip by (rule in_play_bet)
  then show ?thesis unfolding e by (rule aiAdvanceOrSwitch_in_play)
next
  case Raise
  have e: "aiAction act amt gs
             = aiAdvanceOrSwitch
                 (bet Opponent (max 0 (currentBet (player gs) - currentBet (opponent gs)) + amt) gs)"
    using Raise by (simp add: aiAction_def Let_def)
  have "in_play tot (bet Opponent (max 0 (currentBet (player gs) - currentBet (opponent gs)) + amt) gs)"
    using ip by (rule in_play_bet)
  then show ?thesis unfolding e by (rule aiAdvanceOrSwitch_in_play)
qed

lemma step_in_play:
  assumes ip: "in_play tot gs"
  shows "\<exists>gs'. step ev gs = Some gs' \<and> (in_play tot gs' \<or> awarded tot gs')"
proof (cases ev)
  case (Click act amt)
  then show ?thesis using userAction_in_play[OF ip, of act amt] ip by (auto simp add: step_def)
next
  case (AiTimer act amt)
  have "in_play tot (gs\<lparr>aiTimers := aiTimers gs - 1\<rparr>)"
    using ip by (simp add: in_play_def chips_def)
  from aiAction_in_play[OF this, of act amt] show ?thesis
    using AiTimer ip by (auto simp add: step_def)
qed


lemma nextAction_showdown: "stage gs = Showdown \<Longrightarrow> stage (nextAction gs) = Showdown"
  by (simp add: nextAction_def goToShowdown_awards)

lemma advanceOrSwitch_showdown:
  "stage gs = Showdown \<Longrightarrow> \<exists>gs'. advanceOrSwitch gs = Some gs' \<and> stage gs' = Showdown"
  by (simp add: advanceOrSwitch_def Let_def nextAction_showdown)

lemma userAction_showdown:
  "stage gs = Showdown \<Longrightarrow> \<exists>gs'. userAction act amt gs = Some gs' \<and> stage gs' = Showdown"
  by (cases act)
     (simp_all add: userAction_def Let_def nextAction_showdown goToShowdown_awards
        advanceOrSwitch_showdown)

lemma aiAdvanceOrSwitch_showdown:
  "stage gs = Showdown \<Longrightarrow> \<exists>gs'. aiAdvanceOrSwitch gs = Some gs' \<and> stage gs' = Showdown"
  by (simp add: aiAdvanceOrSwitch_def Let_def nextAction_showdown)

lemma aiAction_showdown:
  "stage gs = Showdown \<Longrightarrow> \<exists>gs'. aiAction act amt gs = Some gs' \<and> stage gs' = Showdown"
  by (cases act)
     (simp_all add: aiAction_def Let_def goToShowdown_awards aiAdvanceOrSwitch_showdown)

lemma step_showdown:
  "stage gs = Showdown \<Longrightarrow> \<exists>gs'. step ev gs = Some gs' \<and> stage gs' = Showdown"
  using userAction_showdown aiAction_showdown
  by (cases ev) (simp_all add: step_def)

lemma run_showdown:
  "stage gs = Showdown \<Longrightarrow> \<exists>gs'. run evs gs = Some gs' \<and> stage gs' = Showdown"
proof (induction evs arbitrary: gs)
  case Nil
  then show ?case by simp
next
  case (Cons ev evs)
  from step_showdown[OF Cons.prems, of ev] obtain g where g: "step ev gs = Some g" "stage g = Showdown"
    by blast
  from Cons.IH[OF g(2)] show ?case using g(1) by simp
qed

lemma run_in_play:
  "in_play tot gs \<Longrightarrow> \<exists>gs'. run evs gs = Some gs' \<and> (in_play tot gs' \<or> stage gs' = Showdown)"
proof (induction evs arbitrary: gs)
  case Nil
  then show ?case by simp
next
  case (Cons ev evs)
  from step_in_play[OF Cons.prems, of ev] obtain g
    where g: "step ev gs = Some g" "in_play tot g \<or> awarded tot g"
    by blast
  from g(2) show ?case
  proof
    assume "in_play tot g"
    from Cons.IH[OF this] show ?thesis using g(1) by simp
  next
    assume "awarded tot g"
    then have "stage g = Showdown" by (simp add: awarded_def)
    from run_showdown[OF this, of evs] show ?thesis using g(1) by auto
  qed
qed

lemma length_swap [simp]: "length (swap i j xs) = length xs"
  by (simp add: swap_def)

lemma length_shuffle_from [simp]: "length (shuffle_from rnd n xs) = length xs"
  by (induction n arbitrary: xs) simp_all

lemma length_shuffle [simp]: "length (shuffle rnd xs) = length xs"
  by (simp add: shuffle_def)

lemma length_newDeck: "length newDeck = 52"
  by (simp add: newDeck_def SUITS_def RANKS_def)

lemma postBlinds_fields [simp]:
  "stage (postBlinds gs) = stage gs" "deck (postBlinds gs) = deck gs"
  "board (postBlinds gs) = board gs" "button (postBlinds gs) = button gs"
  "folded (player (postBlinds gs)) = folded (player gs)"
  "folded (opponent (postBlinds gs)) = folded (opponent gs)"
  "cards (player (postBlinds gs)) = cards (player gs)"
  "cards (opponent (postBlinds gs)) = cards (opponent gs)"
  "chips (postBlinds gs) = chips gs"
  by (simp_all add: postBlinds_def Let_def)

text \<open>The hand that startHand sets up, with the four hole cards and the rest of the deck named.\<close>

lemma startHand_Some:
  "\<exists>a b c d dk. length dk = 48 \<and> shuffle rnd newDeck = dk @ [d, c, b, a] \<and>
     startHand rnd gs =
       Some (nextAction
              ((postBlinds
                 (gs\<lparr>deck := dk, board := [],
                     player := (player gs)\<lparr>cards := [a, b], currentBet := 0, folded := False\<rparr>,
                     opponent := (opponent gs)\<lparr>cards := [c, d], currentBet := 0, folded := False\<rparr>,
                     pot := 0,
                     button := (if button gs = Player then Opponent else Player)\<rparr>))
               \<lparr>stage := Preflop,
                turn := (if (if button gs = Player then Opponent else Player) = Player
                         then Opponent else Player)\<rparr>))"
proof -
  define d0 where "d0 = shuffle rnd newDeck"
  have l0: "length d0 = 52" by (simp add: d0_def length_newDeck)
  define d1 where "d1 = butlast d0"
  define d2 where "d2 = butlast d1"
  define d3 where "d3 = butlast d2"
  define d4 where "d4 = butlast d3"
  have l: "length d1 = 51" "length d2 = 50" "length d3 = 49" "length d4 = 48"
    using l0 by (simp_all add: d1_def d2_def d3_def d4_def)
  have ne: "d0 \<noteq> []" "d1 \<noteq> []" "d2 \<noteq> []" "d3 \<noteq> []"
    using l0 l by auto
  have dl: "deal d0 = (Some (last d0), d1)" "deal d1 = (Some (last d1), d2)"
           "deal d2 = (Some (last d2), d3)" "deal d3 = (Some (last d3), d4)"
    using ne by (simp_all add: deal_def d1_def d2_def d3_def d4_def)
  have "startHand rnd gs =
       Some (nextAction
              ((postBlinds
                 (gs\<lparr>deck := d4, board := [],
                     player := (player gs)\<lparr>cards := [last d0, last d1], currentBet := 0, folded := False\<rparr>,
                     opponent := (opponent gs)\<lparr>cards := [last d2, last d3], currentBet := 0, folded := False\<rparr>,
                     pot := 0,
                     button := (if button gs = Player then Opponent else Player)\<rparr>))
               \<lparr>stage := Preflop,
                turn := (if (if button gs = Player then Opponent else Player) = Player
                         then Opponent else Player)\<rparr>))"
    by (simp add: startHand_def Let_def dl flip: d0_def)
  moreover have "shuffle rnd newDeck = d4 @ [last d3, last d2, last d1, last d0]"
  proof -
    have "d0 = d1 @ [last d0]" "d1 = d2 @ [last d1]" "d2 = d3 @ [last d2]" "d3 = d4 @ [last d3]"
      using ne by (simp_all add: d1_def d2_def d3_def d4_def)
    then have "d0 = ((((d4 @ [last d3]) @ [last d2]) @ [last d1]) @ [last d0])" by metis
    then show ?thesis unfolding d0_def by simp
  qed
  ultimately show ?thesis using l(4) by blast
qed

lemma startHand_in_play:
  "\<exists>gs1. startHand rnd gs = Some gs1 \<and> in_play (stacks gs) gs1"
proof -
  obtain a b c d dk where l: "length dk = 48" and
    e: "startHand rnd gs =
       Some (nextAction
              ((postBlinds
                 (gs\<lparr>deck := dk, board := [],
                     player := (player gs)\<lparr>cards := [a, b], currentBet := 0, folded := False\<rparr>,
                     opponent := (opponent gs)\<lparr>cards := [c, d], currentBet := 0, folded := False\<rparr>,
                     pot := 0,
                     button := (if button gs = Player then Opponent else Player)\<rparr>))
               \<lparr>stage := Preflop,
                turn := (if (if button gs = Player then Opponent else Player) = Player
                         then Opponent else Player)\<rparr>))"
    using startHand_Some[of rnd gs] by blast
  let ?g0 = "gs\<lparr>deck := dk, board := [],
                     player := (player gs)\<lparr>cards := [a, b], currentBet := 0, folded := False\<rparr>,
                     opponent := (opponent gs)\<lparr>cards := [c, d], currentBet := 0, folded := False\<rparr>,
                     pot := 0,
                     button := (if button gs = Player then Opponent else Player)\<rparr>"
  have c0: "chips ?g0 = stacks gs" by (simp add: chips_def stacks_def)
  have c1: "chips (postBlinds ?g0) = stacks gs" using c0 by (simp only: postBlinds_fields)
  have "in_play (stacks gs) ((postBlinds ?g0)\<lparr>stage := Preflop,
                turn := (if (if button gs = Player then Opponent else Player) = Player
                         then Opponent else Player)\<rparr>)"
    unfolding in_play_def using c1 l by (simp add: chips_def cards_needed_def)
  then have "in_play (stacks gs) (nextAction ((postBlinds ?g0)\<lparr>stage := Preflop,
                turn := (if (if button gs = Player then Opponent else Player) = Player
                         then Opponent else Player)\<rparr>))"
    by (rule nextAction_in_play)
  then show ?thesis using e by simp
qed

text \<open>
  C1, as the code has it (counterexample to the claim as stated). Equal stacks of 10000,
  the player on the button; the opponent checks and the player folds. The pot of 150 goes
  to the opponent's stack and the field \<open>pot\<close> keeps its 150 (it is reset by the next
  \<open>startHand\<close>), so after the award \<open>pot + player.stack + opponent.stack\<close> is 20150,
  not the 20000 of the hand's start.
\<close>

theorem chips_after_award_counterexample:
  "map_option (\<lambda>g. pot g + stack (player g) + stack (opponent g))
     (Option.bind (startHand (\<lambda>i. i) evenState) (run [AiTimer Check 0, Click Fold 0]))
     = Some 20150
   \<and> stack (player evenState) + stack (opponent evenState) = 20000"
  by code_simp

text \<open>
  C1, amended. For every hand started by \<open>startHand\<close> (any shuffle, any stacks) and every
  sequence of events, the hand runs without an exception, and as long as the stage is not
  the showdown, \<open>pot + player.stack + opponent.stack\<close> equals the sum of the two stacks at
  hand start. The event that takes the hand to the showdown adds the pot to the stacks and
  leaves \<open>pot\<close> as it is: right after it, \<open>player.stack + opponent.stack\<close> equals the
  sum of the two stacks at hand start.
\<close>

theorem chips_conserved_until_showdown:
  "\<exists>gs1. startHand rnd gs0 = Some gs1 \<and>
     (\<forall>evs. \<exists>gs. run evs gs1 = Some gs \<and>
        (stage gs \<noteq> Showdown \<longrightarrow>
           pot gs + stack (player gs) + stack (opponent gs)
             = stack (player gs0) + stack (opponent gs0)
           \<and> (\<forall>ev. \<exists>gs'. step ev gs = Some gs' \<and>
                 (stage gs' \<noteq> Showdown \<longrightarrow>
                    pot gs' + stack (player gs') + stack (opponent gs')
                      = stack (player gs0) + stack (opponent gs0))
               \<and> (stage gs' = Showdown \<longrightarrow>
                    stack (player gs') + stack (opponent gs')
                      = stack (player gs0) + stack (opponent gs0)))))"
proof -
  obtain gs1 where s: "startHand rnd gs0 = Some gs1" and ip: "in_play (stacks gs0) gs1"
    using startHand_in_play by blast
  have "\<exists>gs. run evs gs1 = Some gs \<and>
        (stage gs \<noteq> Showdown \<longrightarrow>
           pot gs + stack (player gs) + stack (opponent gs)
             = stack (player gs0) + stack (opponent gs0)
           \<and> (\<forall>ev. \<exists>gs'. step ev gs = Some gs' \<and>
                 (stage gs' \<noteq> Showdown \<longrightarrow>
                    pot gs' + stack (player gs') + stack (opponent gs')
                      = stack (player gs0) + stack (opponent gs0))
               \<and> (stage gs' = Showdown \<longrightarrow>
                    stack (player gs') + stack (opponent gs')
                      = stack (player gs0) + stack (opponent gs0))))" for evs
  proof -
    obtain gs where r: "run evs gs1 = Some gs" and d: "in_play (stacks gs0) gs \<or> stage gs = Showdown"
      using run_in_play[OF ip, of evs] by blast
    have "pot gs + stack (player gs) + stack (opponent gs)
             = stack (player gs0) + stack (opponent gs0)
           \<and> (\<forall>ev. \<exists>gs'. step ev gs = Some gs' \<and>
                 (stage gs' \<noteq> Showdown \<longrightarrow>
                    pot gs' + stack (player gs') + stack (opponent gs')
                      = stack (player gs0) + stack (opponent gs0))
               \<and> (stage gs' = Showdown \<longrightarrow>
                    stack (player gs') + stack (opponent gs')
                      = stack (player gs0) + stack (opponent gs0)))"
      if ns: "stage gs \<noteq> Showdown"
    proof -
      have ipg: "in_play (stacks gs0) gs" using d ns by blast
      have a: "pot gs + stack (player gs) + stack (opponent gs)
             = stack (player gs0) + stack (opponent gs0)"
        using ipg by (simp add: in_play_def chips_def stacks_def)
      have b: "\<exists>gs'. step ev gs = Some gs' \<and>
                 (stage gs' \<noteq> Showdown \<longrightarrow>
                    pot gs' + stack (player gs') + stack (opponent gs')
                      = stack (player gs0) + stack (opponent gs0))
               \<and> (stage gs' = Showdown \<longrightarrow>
                    stack (player gs') + stack (opponent gs')
                      = stack (player gs0) + stack (opponent gs0))" for ev
      proof -
        obtain g where g: "step ev gs = Some g" "in_play (stacks gs0) g \<or> awarded (stacks gs0) g"
          using step_in_play[OF ipg, of ev] by blast
        show ?thesis using g by (auto simp add: in_play_def awarded_def chips_def stacks_def)
      qed
      show ?thesis using a b by blast
    qed
    then show ?thesis using r by blast
  qed
  then show ?thesis using s by blast
qed


theorem chips_conserved_until_showdown_witness:
  "\<exists>gs1 gs. startHand (\<lambda>i. i) evenState = Some gs1
     \<and> run [AiTimer Check 0, Click Raise 300] gs1 = Some gs
     \<and> stage gs = Preflop
     \<and> pot gs + stack (player gs) + stack (opponent gs) = 20000"
proof -
  obtain gs1 where s: "startHand (\<lambda>i. i) evenState = Some gs1"
    and a: "\<And>evs. \<exists>gs. run evs gs1 = Some gs \<and>
        (stage gs \<noteq> Showdown \<longrightarrow>
           pot gs + stack (player gs) + stack (opponent gs)
             = stack (player evenState) + stack (opponent evenState)
           \<and> (\<forall>ev. \<exists>gs'. step ev gs = Some gs' \<and>
                 (stage gs' \<noteq> Showdown \<longrightarrow>
                    pot gs' + stack (player gs') + stack (opponent gs')
                      = stack (player evenState) + stack (opponent evenState))
               \<and> (stage gs' = Showdown \<longrightarrow>
                    stack (player gs') + stack (opponent gs')
                      = stack (player evenState) + stack (opponent evenState))))"
    using chips_conserved_until_showdown [of "\<lambda>i. i" evenState] by blast
  obtain gs where r: "run [AiTimer Check 0, Click Raise 300] gs1 = Some gs"
    and c: "stage gs \<noteq> Showdown \<longrightarrow>
           pot gs + stack (player gs) + stack (opponent gs)
             = stack (player evenState) + stack (opponent evenState)"
    using a[of "[AiTimer Check 0, Click Raise 300]"] by blast
  have "map_option stage
          (Option.bind (startHand (\<lambda>i. i) evenState) (run [AiTimer Check 0, Click Raise 300]))
          = Some Preflop"
    by code_simp
  then have st: "stage gs = Preflop" using s r by simp
  have "stack (player evenState) + stack (opponent evenState) = 20000"
    by (simp add: evenState_def)
  then show ?thesis using s r st c by auto
qed



section \<open>The betting state machine: the preflop fold\<close>

lemma goToShowdown_player_folded:
  "folded (player gs) \<Longrightarrow>
     stack (opponent (goToShowdown gs)) = stack (opponent gs) + pot gs
     \<and> stack (player (goToShowdown gs)) = stack (player gs)"
  by (simp add: goToShowdown_def Let_def)

lemma startHand_player_button:
  assumes bb: "bigBlind gs = 100" and sp: "stack (player gs) = S" and so: "stack (opponent gs) = S"
    and big: "100 \<le> S" and bt: "button gs = Opponent"
  shows "\<exists>gs1. startHand rnd gs = Some gs1 \<and> button gs1 = Player \<and> stage gs1 = Preflop
           \<and> turn gs1 = Opponent \<and> pot gs1 = 150
           \<and> currentBet (player gs1) = 50 \<and> currentBet (opponent gs1) = 100
           \<and> stack (player gs1) = S - 50 \<and> stack (opponent gs1) = S - 100
           \<and> \<not> folded (player gs1) \<and> \<not> folded (opponent gs1)
           \<and> \<not> awaitingUser gs1 \<and> aiTimers gs1 = aiTimers gs + 1"
proof -
  obtain a b c d dk where
    e: "startHand rnd gs =
       Some (nextAction
              ((postBlinds
                 (gs\<lparr>deck := dk, board := [],
                     player := (player gs)\<lparr>cards := [a, b], currentBet := 0, folded := False\<rparr>,
                     opponent := (opponent gs)\<lparr>cards := [c, d], currentBet := 0, folded := False\<rparr>,
                     pot := 0,
                     button := (if button gs = Player then Opponent else Player)\<rparr>))
               \<lparr>stage := Preflop,
                turn := (if (if button gs = Player then Opponent else Player) = Player
                         then Opponent else Player)\<rparr>))"
    using startHand_Some[of rnd gs] by blast
  define g0 where "g0 = gs\<lparr>deck := dk, board := [],
                     player := (player gs)\<lparr>cards := [a, b], currentBet := 0, folded := False\<rparr>,
                     opponent := (opponent gs)\<lparr>cards := [c, d], currentBet := 0, folded := False\<rparr>,
                     pot := 0,
                     button := (if button gs = Player then Opponent else Player)\<rparr>"
  have m: "min 50 S = 50" "min 100 S = 100" using big by simp_all
  have pb: "pot (postBlinds g0) = 150" "currentBet (player (postBlinds g0)) = 50"
      "currentBet (opponent (postBlinds g0)) = 100" "stack (player (postBlinds g0)) = S - 50"
      "stack (opponent (postBlinds g0)) = S - 100" "button (postBlinds g0) = Player"
      "\<not> folded (player (postBlinds g0))" "\<not> folded (opponent (postBlinds g0))"
      "aiTimers (postBlinds g0) = aiTimers gs"
    using bb sp so bt m by (simp_all add: postBlinds_def bet_def Let_def g0_def)
  define g1 where "g1 = (postBlinds g0)\<lparr>stage := Preflop, turn := Opponent\<rparr>"
  have e': "startHand rnd gs = Some (nextAction g1)"
    using e bt unfolding g0_def[symmetric] g1_def by simp
  have n: "nextAction g1 = g1\<lparr>awaitingUser := False, aiTimers := aiTimers g1 + 1\<rparr>"
    using pb by (simp add: nextAction_def g1_def)
  show ?thesis unfolding e' n using pb by (simp add: g1_def)
qed


lemma userAction_fold_stacks:
  "\<exists>gs2. userAction Fold amt gs1 = Some gs2
         \<and> stack (opponent gs2) = stack (opponent gs1) + pot gs1
         \<and> stack (player gs2) = stack (player gs1)"
proof -
  let ?g = "gs1\<lparr>awaitingUser := False,
                 player := (player (gs1\<lparr>awaitingUser := False\<rparr>))\<lparr>folded := True\<rparr>\<rparr>"
  have e: "userAction Fold amt gs1 = Some (goToShowdown ?g)"
    by (simp add: userAction_def Let_def)
  have "folded (player ?g)" by simp
  from goToShowdown_player_folded[OF this] show ?thesis unfolding e by simp
qed

lemma opponent_checks_behind_blind:
  assumes "0 < aiTimers gs1" and "currentBet (player gs1) < currentBet (opponent gs1)"
    and "\<not> folded (player gs1)" and "\<not> folded (opponent gs1)"
  shows "step (AiTimer Check amt) gs1
           = Some (gs1\<lparr>aiTimers := aiTimers gs1 - 1, turn := Player, awaitingUser := True\<rparr>)"
proof -
  let ?g = "gs1\<lparr>aiTimers := aiTimers gs1 - 1\<rparr>"
  have t: "max 0 (currentBet (player ?g) - currentBet (opponent ?g)) = 0"
    using assms(2) by simp
  have "aiAction Check amt ?g = aiAdvanceOrSwitch ?g"
    unfolding aiAction_def Let_def t by simp
  also have "\<dots> = Some (nextAction (?g\<lparr>turn := Player\<rparr>))"
    using assms(2) by (simp add: aiAdvanceOrSwitch_def)
  also have "nextAction (?g\<lparr>turn := Player\<rparr>) = ?g\<lparr>turn := Player, awaitingUser := True\<rparr>"
    using assms(3,4) by (simp add: nextAction_def)
  finally show ?thesis using assms(1) by (simp add: step_def)
qed

text \<open>
  C9, amended. With equal starting stacks of at least one big blind, \<open>bigBlind = 100\<close>
  and the player on the button, \<open>startHand\<close> makes the player commit 50 and the opponent
  commit 100, so the pot is 150. If the player then folds (at once, or after the opponent,
  who acts first, has checked), the opponent's stack increases by exactly 150 over its
  value after the blinds, which is exactly 50 over its value at hand start, and the
  player's stack ends exactly 50 below its value at hand start.
\<close>

theorem preflop_fold_scenario:
  assumes bb: "bigBlind gs0 = 100" and sp: "stack (player gs0) = S" and so: "stack (opponent gs0) = S"
    and big: "100 \<le> S" and bt: "button gs0 = Opponent"
  shows "\<exists>gs1. startHand rnd gs0 = Some gs1 \<and> button gs1 = Player
           \<and> currentBet (player gs1) = 50 \<and> currentBet (opponent gs1) = 100 \<and> pot gs1 = 150
           \<and> (\<exists>gs2. userAction Fold 0 gs1 = Some gs2
                 \<and> stack (opponent gs2) = stack (opponent gs1) + 150
                 \<and> stack (opponent gs2) = stack (opponent gs0) + 50
                 \<and> stack (player gs2) = stack (player gs0) - 50)
           \<and> (\<exists>gs3. run [AiTimer Check 0, Click Fold 0] gs1 = Some gs3
                 \<and> stack (opponent gs3) = stack (opponent gs1) + 150
                 \<and> stack (opponent gs3) = stack (opponent gs0) + 50
                 \<and> stack (player gs3) = stack (player gs0) - 50)"
proof -
  obtain gs1 where s: "startHand rnd gs0 = Some gs1" and f: "button gs1 = Player"
      "pot gs1 = 150" "currentBet (player gs1) = 50" "currentBet (opponent gs1) = 100"
      "stack (player gs1) = S - 50" "stack (opponent gs1) = S - 100"
      "\<not> folded (player gs1)" "\<not> folded (opponent gs1)" "aiTimers gs1 = aiTimers gs0 + 1"
    using startHand_player_button[OF bb sp so big bt, of rnd] by blast
  obtain gs2 where u: "userAction Fold 0 gs1 = Some gs2"
      "stack (opponent gs2) = stack (opponent gs1) + pot gs1" "stack (player gs2) = stack (player gs1)"
    using userAction_fold_stacks[of 0 gs1] by blast
  let ?g = "gs1\<lparr>aiTimers := aiTimers gs1 - 1, turn := Player, awaitingUser := True\<rparr>"
  have c: "step (AiTimer Check 0) gs1 = Some ?g"
    using f by (intro opponent_checks_behind_blind) simp_all
  obtain gs3 where v: "userAction Fold 0 ?g = Some gs3"
      "stack (opponent gs3) = stack (opponent ?g) + pot ?g" "stack (player gs3) = stack (player ?g)"
    using userAction_fold_stacks[of 0 ?g] by blast
  have r: "run [AiTimer Check 0, Click Fold 0] gs1 = Some gs3"
    using c v(1) by (simp add: step_def)
  have a: "\<exists>gs2. userAction Fold 0 gs1 = Some gs2
                 \<and> stack (opponent gs2) = stack (opponent gs1) + 150
                 \<and> stack (opponent gs2) = stack (opponent gs0) + 50
                 \<and> stack (player gs2) = stack (player gs0) - 50"
    using u f sp so by simp
  have b: "\<exists>gs3. run [AiTimer Check 0, Click Fold 0] gs1 = Some gs3
                 \<and> stack (opponent gs3) = stack (opponent gs1) + 150
                 \<and> stack (opponent gs3) = stack (opponent gs0) + 50
                 \<and> stack (player gs3) = stack (player gs0) - 50"
    using r v f sp so by simp
  show ?thesis using s f a b by blast
qed

theorem preflop_fold_scenario_witness:
  "\<exists>gs1 gs3. startHand (\<lambda>i. i) evenState = Some gs1 \<and> pot gs1 = 150
      \<and> run [AiTimer Check 0, Click Fold 0] gs1 = Some gs3
      \<and> stack (opponent gs3) = 10050 \<and> stack (player gs3) = 9950"
proof -
  have h: "bigBlind evenState = 100" "stack (player evenState) = 10000"
      "stack (opponent evenState) = 10000" "(100::rat) \<le> 10000" "button evenState = Opponent"
    by (simp_all add: evenState_def)
  show ?thesis using preflop_fold_scenario [OF h, of "\<lambda>i. i"] h(2,3) by auto
qed

text \<open>
  C9, as the code has it (counterexample to the claim as stated). In the equal-stacks
  match the blinds are 50 and 100 and the pot is 150; after the player's fold the
  opponent's stack is 50 above its value at hand start, not 150: the opponent's own blind
  of 100 is part of the pot it wins.
\<close>

theorem preflop_fold_counterexample:
  "map_option (\<lambda>g. (currentBet (player g), currentBet (opponent g), pot g))
       (startHand (\<lambda>i. i) evenState) = Some (50, 100, 150)
   \<and> map_option (\<lambda>g. stack (opponent g) - stack (opponent evenState))
       (Option.bind (startHand (\<lambda>i. i) evenState) (userAction Fold 0)) = Some 50
   \<and> map_option (\<lambda>g. stack (opponent g) - stack (opponent evenState))
       (Option.bind (startHand (\<lambda>i. i) evenState) (userAction Fold 0)) \<noteq> Some 150"
  by code_simp

section \<open>The betting state machine: who acts first on a new street\<close>

lemma nextAction_turn_stage:
  "stage (nextAction gs) \<noteq> Showdown \<Longrightarrow>
     stage (nextAction gs) = stage gs \<and> turn (nextAction gs) = turn gs
     \<and> button (nextAction gs) = button gs"
  by (auto simp add: nextAction_def goToShowdown_awards split: if_splits)

lemma goToShowdown_button [simp]: "button (goToShowdown gs) = button gs"
  by (simp add: goToShowdown_def Let_def split: option.splits bool.splits)

lemma nextAction_button [simp]: "button (nextAction gs) = button gs"
  by (simp add: nextAction_def)

lemma deal_stage_button:
  "dealFlop gs = Some gs' \<Longrightarrow> button gs' = button gs"
  "dealTurn gs = Some gs' \<Longrightarrow> button gs' = button gs"
  "dealRiver gs = Some gs' \<Longrightarrow> button gs' = button gs"
  by (auto simp add: dealFlop_def dealTurn_def dealRiver_def Let_def
        split: prod.splits option.splits)

lemma advanceOrSwitch_turn:
  assumes "advanceOrSwitch gs = Some gs'" and "stage gs' \<noteq> stage gs" and "stage gs' \<noteq> Showdown"
  shows "turn gs' = button gs' \<and> button gs' = button gs"
proof (cases "currentBet (player gs) = currentBet (opponent gs)")
  case False
  then have "gs' = nextAction (gs\<lparr>turn := (if turn gs = Player then Opponent else Player)\<rparr>)"
    using assms(1) by (simp add: advanceOrSwitch_def)
  then show ?thesis using assms(2,3) nextAction_turn_stage by fastforce
next
  case True
  define gs1 where "gs1 = gs\<lparr>player := (player gs)\<lparr>currentBet := 0\<rparr>,
                            opponent := (opponent gs)\<lparr>currentBet := 0\<rparr>\<rparr>"
  obtain gs2 where
    a: "(case stage gs1 of Preflop \<Rightarrow> dealFlop gs1 | Flop \<Rightarrow> dealTurn gs1
            | Turn \<Rightarrow> dealRiver gs1 | River \<Rightarrow> Some (goToShowdown gs1)
            | Showdown \<Rightarrow> Some gs1) = Some gs2"
    and b: "gs' = nextAction (gs2\<lparr>turn := (if button gs2 = Player then Player else Opponent)\<rparr>)"
    using assms(1) True unfolding advanceOrSwitch_def gs1_def Let_def
    by (auto split: option.splits)
  have bt: "button gs2 = button gs"
    using a deal_stage_button[of gs1 gs2] by (cases "stage gs1") (auto simp add: gs1_def)
  have "turn gs' = button gs2"
    using b assms(3) nextAction_turn_stage[of "gs2\<lparr>turn := (if button gs2 = Player then Player else Opponent)\<rparr>"]
    by (cases "button gs2") auto
  then show ?thesis using bt b by simp
qed


lemma aiAdvanceOrSwitch_turn:
  assumes "aiAdvanceOrSwitch gs = Some gs'" and "stage gs' \<noteq> stage gs" and "stage gs' \<noteq> Showdown"
  shows "turn gs' = button gs' \<and> button gs' = button gs"
proof (cases "currentBet (player gs) = currentBet (opponent gs)")
  case False
  then have "gs' = nextAction (gs\<lparr>turn := Player\<rparr>)"
    using assms(1) by (simp add: aiAdvanceOrSwitch_def)
  then show ?thesis using assms(2,3) nextAction_turn_stage by fastforce
next
  case True
  define gs1 where "gs1 = gs\<lparr>player := (player gs)\<lparr>currentBet := 0\<rparr>,
                            opponent := (opponent gs)\<lparr>currentBet := 0\<rparr>\<rparr>"
  have nr: "stage gs1 \<noteq> River"
  proof
    assume "stage gs1 = River"
    then have "gs' = goToShowdown gs1"
      using assms(1) True unfolding aiAdvanceOrSwitch_def gs1_def Let_def by simp
    then show False using assms(3) by (simp add: goToShowdown_awards)
  qed
  obtain gs2 where
    a: "(case stage gs1 of Preflop \<Rightarrow> dealFlop gs1 | Flop \<Rightarrow> dealTurn gs1
            | Turn \<Rightarrow> dealRiver gs1 | _ \<Rightarrow> Some gs1) = Some gs2"
    and b: "gs' = nextAction (gs2\<lparr>turn := (if button gs2 = Player then Player else Opponent)\<rparr>)"
    using assms(1) True nr unfolding aiAdvanceOrSwitch_def gs1_def Let_def
    by (cases "stage gs") (auto split: option.splits)
  have bt: "button gs2 = button gs"
    using a deal_stage_button[of gs1 gs2] by (cases "stage gs1") (auto simp add: gs1_def)
  have "turn gs' = button gs2"
    using b assms(3) nextAction_turn_stage[of "gs2\<lparr>turn := (if button gs2 = Player then Player else Opponent)\<rparr>"]
    by (cases "button gs2") auto
  then show ?thesis using bt b by simp
qed

lemma userAction_turn:
  assumes "userAction act amt gs = Some gs'" and "stage gs' \<noteq> stage gs" and "stage gs' \<noteq> Showdown"
  shows "turn gs' = button gs' \<and> button gs' = button gs"
proof (cases act)
  case Fold
  then show ?thesis using assms by (auto simp add: userAction_def Let_def goToShowdown_awards)
next
  case Check
  define g where "g = gs\<lparr>awaitingUser := False\<rparr>"
  let ?c = "if max 0 (currentBet (opponent g) - currentBet (player g)) > 0
            then bet Player (max 0 (currentBet (opponent g) - currentBet (player g))) g else g"
  have "userAction act amt gs = advanceOrSwitch ?c"
    using Check by (simp add: userAction_def g_def Let_def)
  then have e: "advanceOrSwitch ?c = Some gs'" using assms(1) by simp
  have "stage ?c = stage gs" "button ?c = button gs" by (simp_all add: g_def)
  then show ?thesis using advanceOrSwitch_turn[OF e] assms(2,3) by simp
next
  case Allin
  then have "gs' = nextAction ((bet Player (stack (player (gs\<lparr>awaitingUser := False\<rparr>)))
                                  (gs\<lparr>awaitingUser := False\<rparr>))\<lparr>turn := Opponent\<rparr>)"
    using assms(1) by (simp add: userAction_def Let_def)
  then show ?thesis using assms(2,3) nextAction_turn_stage by fastforce
next
  case Raise
  then have "gs' = nextAction ((bet Player
                 (max 0 (currentBet (opponent (gs\<lparr>awaitingUser := False\<rparr>))
                         - currentBet (player (gs\<lparr>awaitingUser := False\<rparr>))) + amt)
                 (gs\<lparr>awaitingUser := False\<rparr>))\<lparr>turn := Opponent\<rparr>)"
    using assms(1) by (simp add: userAction_def Let_def)
  then show ?thesis using assms(2,3) nextAction_turn_stage by fastforce
qed

lemma aiAction_turn:
  assumes "aiAction act amt gs = Some gs'" and "stage gs' \<noteq> stage gs" and "stage gs' \<noteq> Showdown"
  shows "turn gs' = button gs' \<and> button gs' = button gs"
proof -
  have "\<exists>c. aiAdvanceOrSwitch c = Some gs' \<and> stage c = stage gs \<and> button c = button gs"
    using assms(1,3)
    by (cases act) (auto simp add: aiAction_def Let_def goToShowdown_awards split: if_splits)
  then obtain c where c: "aiAdvanceOrSwitch c = Some gs'" "stage c = stage gs" "button c = button gs"
    by blast
  show ?thesis using aiAdvanceOrSwitch_turn[OF c(1)] c(2,3) assms(2,3) by simp
qed

text \<open>
  C2, as the code has it. Whenever an event moves the hand to a new street (the new stage
  differs from the old one and is not the showdown), the turn is given to the player who
  has the button, whichever of the two acted: both \<open>advanceOrSwitch\<close> and \<open>aiAction\<close>
  assign \<open>turn = (button === 'player') ? 'player' : 'opponent'\<close> under a comment that
  says the big blind, opposite of the button, acts first. The claim asks for the non-button
  player.
\<close>

theorem street_transition_gives_turn_to_button:
  assumes "step ev gs = Some gs'" and "stage gs' \<noteq> stage gs" and "stage gs' \<noteq> Showdown"
  shows "turn gs' = button gs' \<and> button gs' = button gs"
proof (cases ev)
  case (Click act amt)
  then have "userAction act amt gs = Some gs'"
    using assms(1,2) by (auto simp add: step_def split: if_splits)
  then show ?thesis using assms(2,3) by (rule userAction_turn)
next
  case (AiTimer act amt)
  then have e: "aiAction act amt (gs\<lparr>aiTimers := aiTimers gs - 1\<rparr>) = Some gs'"
    using assms(1,2) by (auto simp add: step_def split: if_splits)
  show ?thesis using aiAction_turn[OF e] assms(2,3) by simp
qed

theorem street_transition_gives_turn_to_button_witness:
  "\<exists>gs gs'. Option.bind (initGame (\<lambda>i. i) Equal_stacks newSession) (run [Click Check 0]) = Some gs
     \<and> step (AiTimer Check 0) gs = Some gs'
     \<and> currentBet (player gs) = 100 \<and> currentBet (opponent gs) = 50
     \<and> stage gs = Preflop \<and> stage gs' = Flop
     \<and> button gs' = Opponent \<and> turn gs' = Opponent"
proof -
  have a: "map_option (\<lambda>g. (stage g, currentBet (player g), currentBet (opponent g)))
             (Option.bind (initGame (\<lambda>i. i) Equal_stacks newSession) (run [Click Check 0]))
           = Some (Preflop, 100, 50)"
    by code_simp
  then obtain gs where g: "Option.bind (initGame (\<lambda>i. i) Equal_stacks newSession) (run [Click Check 0]) = Some gs"
      "stage gs = Preflop" "currentBet (player gs) = 100" "currentBet (opponent gs) = 50"
    by auto
  have b: "map_option (\<lambda>g. (stage g, button g))
             (Option.bind (Option.bind (initGame (\<lambda>i. i) Equal_stacks newSession) (run [Click Check 0]))
                (step (AiTimer Check 0)))
           = Some (Flop, Opponent)"
    by code_simp
  then obtain gs' where g': "step (AiTimer Check 0) gs = Some gs'" "stage gs' = Flop" "button gs' = Opponent"
    unfolding g(1) by auto
  have "turn gs' = button gs' \<and> button gs' = button gs"
    using street_transition_gives_turn_to_button [OF g'(1)] g(2) g'(2) by simp
  then show ?thesis using g g' by auto
qed

section \<open>The betting state machine: after a non-fold action\<close>

lemma chipsIn_fields [simp]:
  "stage (chipsIn w act amt gs) = stage gs" "deck (chipsIn w act amt gs) = deck gs"
  "board (chipsIn w act amt gs) = board gs" "button (chipsIn w act amt gs) = button gs"
  "turn (chipsIn w act amt gs) = turn gs"
  "folded (player (chipsIn w act amt gs)) = folded (player gs)"
  "folded (opponent (chipsIn w act amt gs)) = folded (opponent gs)"
  by (cases act; simp add: chipsIn_def)+

lemma goToShowdown_keeps [simp]:
  "currentBet (player (goToShowdown gs)) = currentBet (player gs)"
  "currentBet (opponent (goToShowdown gs)) = currentBet (opponent gs)"
  "board (goToShowdown gs) = board gs" "turn (goToShowdown gs) = turn gs"
  "folded (player (goToShowdown gs)) = folded (player gs)"
  "folded (opponent (goToShowdown gs)) = folded (opponent gs)"
  by (simp_all add: goToShowdown_def Let_def split: option.splits bool.splits)

lemma nextAction_keeps [simp]:
  "currentBet (player (nextAction gs)) = currentBet (player gs)"
  "currentBet (opponent (nextAction gs)) = currentBet (opponent gs)"
  "board (nextAction gs) = board gs" "turn (nextAction gs) = turn gs"
  by (simp_all add: nextAction_def)

lemma nextAction_stage:
  "\<not> folded (player gs) \<Longrightarrow> \<not> folded (opponent gs) \<Longrightarrow> stage (nextAction gs) = stage gs"
  by (simp add: nextAction_def)

text \<open>What the stage chain of advanceOrSwitch and of aiAction does to a live hand.\<close>

lemma street_dealt:
  assumes ns: "stage g \<noteq> Showdown" and nr: "stage g \<noteq> River"
    and len: "cards_needed (stage g) \<le> length (deck g)"
  shows "\<exists>g2. (case stage g of Preflop \<Rightarrow> dealFlop g | Flop \<Rightarrow> dealTurn g
                | Turn \<Rightarrow> dealRiver g | _ \<Rightarrow> Some g) = Some g2
           \<and> stage g2 = next_stage (stage g)
           \<and> length (board g2) = length (board g) + board_cards_dealt (stage g)
           \<and> player g2 = player g \<and> opponent g2 = opponent g"
proof (cases "stage g")
  case Preflop
  then have "4 \<le> length (deck g)" using len by (simp add: cards_needed_def)
  from dealFlop_ok[OF this] show ?thesis
    using Preflop by (auto simp add: next_stage_def board_cards_dealt_def)
next
  case Flop
  then have "2 \<le> length (deck g)" using len by (simp add: cards_needed_def)
  from dealTurn_ok[OF this] show ?thesis
    using Flop by (auto simp add: next_stage_def board_cards_dealt_def)
next
  case Turn
  then have "2 \<le> length (deck g)" using len by (simp add: cards_needed_def)
  from dealRiver_ok[OF this] show ?thesis
    using Turn by (auto simp add: next_stage_def board_cards_dealt_def)
next
  case River
  then show ?thesis using nr by simp
next
  case Showdown
  then show ?thesis using ns by simp
qed

lemma advanceOrSwitch_outcome:
  assumes ns: "stage c \<noteq> Showdown" and nf: "\<not> folded (player c)" "\<not> folded (opponent c)"
    and len: "cards_needed (stage c) \<le> length (deck c)"
  shows "\<exists>gs'. advanceOrSwitch c = Some gs'
           \<and> (if currentBet (player c) = currentBet (opponent c) then advanced c gs'
               else switched (if turn c = Player then Opponent else Player) c gs')"
proof (cases "currentBet (player c) = currentBet (opponent c)")
  case False
  let ?g = "c\<lparr>turn := (if turn c = Player then Opponent else Player)\<rparr>"
  have e: "advanceOrSwitch c = Some (nextAction ?g)" using False by (simp add: advanceOrSwitch_def)
  have "stage (nextAction ?g) = stage c" using nf by (simp add: nextAction_stage)
  then have "switched (if turn c = Player then Opponent else Player) c (nextAction ?g)"
    by (simp add: switched_def)
  then show ?thesis using e False by simp
next
  case True
  define g1 where "g1 = c\<lparr>player := (player c)\<lparr>currentBet := 0\<rparr>,
                           opponent := (opponent c)\<lparr>currentBet := 0\<rparr>\<rparr>"
  have g1: "stage g1 = stage c" "board g1 = board c" "deck g1 = deck c"
      "currentBet (player g1) = 0" "currentBet (opponent g1) = 0"
      "\<not> folded (player g1)" "\<not> folded (opponent g1)"
    using nf by (simp_all add: g1_def)
  show ?thesis
  proof (cases "stage c = River")
    case River: True
    let ?g = "(goToShowdown g1)\<lparr>turn := (if button (goToShowdown g1) = Player then Player else Opponent)\<rparr>"
    have e: "advanceOrSwitch c = Some (nextAction ?g)"
      using True River unfolding advanceOrSwitch_def g1_def[symmetric] Let_def g1(1) by simp
    have "stage (nextAction ?g) = Showdown"
      by (simp add: nextAction_def goToShowdown_awards)
    then have "advanced c (nextAction ?g)"
      using River g1 by (simp add: advanced_def next_stage_def board_cards_dealt_def)
    then show ?thesis using e True by simp
  next
    case False
    obtain g2 where d: "(case stage g1 of Preflop \<Rightarrow> dealFlop g1 | Flop \<Rightarrow> dealTurn g1
                | Turn \<Rightarrow> dealRiver g1 | _ \<Rightarrow> Some g1) = Some g2"
      and p: "stage g2 = next_stage (stage g1)"
        "length (board g2) = length (board g1) + board_cards_dealt (stage g1)"
        "player g2 = player g1" "opponent g2 = opponent g1"
      using street_dealt[of g1] ns False len g1 by auto
    have d': "(case stage g1 of Preflop \<Rightarrow> dealFlop g1 | Flop \<Rightarrow> dealTurn g1
            | Turn \<Rightarrow> dealRiver g1 | River \<Rightarrow> Some (goToShowdown g1)
            | Showdown \<Rightarrow> Some g1) = Some g2"
      using d False g1(1) by (cases "stage g1") simp_all
    let ?g = "g2\<lparr>turn := (if button g2 = Player then Player else Opponent)\<rparr>"
    have e: "advanceOrSwitch c = Some (nextAction ?g)"
      using True d' unfolding advanceOrSwitch_def g1_def[symmetric] Let_def by simp
    have "stage (nextAction ?g) = stage g2" using p g1 by (simp add: nextAction_stage)
    then have "advanced c (nextAction ?g)"
      using p g1 by (simp add: advanced_def)
    then show ?thesis using e True by simp
  qed
qed

lemma aiAdvanceOrSwitch_outcome:
  assumes ns: "stage c \<noteq> Showdown" and nf: "\<not> folded (player c)" "\<not> folded (opponent c)"
    and len: "cards_needed (stage c) \<le> length (deck c)"
  shows "\<exists>gs'. aiAdvanceOrSwitch c = Some gs'
           \<and> (if currentBet (player c) = currentBet (opponent c) then advanced c gs'
               else switched Player c gs')"
proof (cases "currentBet (player c) = currentBet (opponent c)")
  case False
  let ?g = "c\<lparr>turn := Player\<rparr>"
  have e: "aiAdvanceOrSwitch c = Some (nextAction ?g)" using False by (simp add: aiAdvanceOrSwitch_def)
  have "stage (nextAction ?g) = stage c" using nf by (simp add: nextAction_stage)
  then have "switched Player c (nextAction ?g)"
    by (simp add: switched_def)
  then show ?thesis using e False by simp
next
  case True
  define g1 where "g1 = c\<lparr>player := (player c)\<lparr>currentBet := 0\<rparr>,
                           opponent := (opponent c)\<lparr>currentBet := 0\<rparr>\<rparr>"
  have g1: "stage g1 = stage c" "board g1 = board c" "deck g1 = deck c"
      "currentBet (player g1) = 0" "currentBet (opponent g1) = 0"
      "\<not> folded (player g1)" "\<not> folded (opponent g1)"
    using nf by (simp_all add: g1_def)
  show ?thesis
  proof (cases "stage c = River")
    case River: True
    have e: "aiAdvanceOrSwitch c = Some (goToShowdown g1)"
      using True River unfolding aiAdvanceOrSwitch_def g1_def[symmetric] Let_def g1(1) by simp
    have "advanced c (goToShowdown g1)"
      using River g1 by (simp add: advanced_def next_stage_def board_cards_dealt_def goToShowdown_awards)
    then show ?thesis using e True by simp
  next
    case False
    obtain g2 where d: "(case stage g1 of Preflop \<Rightarrow> dealFlop g1 | Flop \<Rightarrow> dealTurn g1
                | Turn \<Rightarrow> dealRiver g1 | _ \<Rightarrow> Some g1) = Some g2"
      and p: "stage g2 = next_stage (stage g1)"
        "length (board g2) = length (board g1) + board_cards_dealt (stage g1)"
        "player g2 = player g1" "opponent g2 = opponent g1"
      using street_dealt[of g1] ns False len g1 by auto
    let ?g = "g2\<lparr>turn := (if button g2 = Player then Player else Opponent)\<rparr>"
    have e: "aiAdvanceOrSwitch c = Some (nextAction ?g)"
      using True d False g1(1) unfolding aiAdvanceOrSwitch_def g1_def[symmetric] Let_def
      by (cases "stage g1") simp_all
    have "stage (nextAction ?g) = stage g2" using p g1 by (simp add: nextAction_stage)
    then have "advanced c (nextAction ?g)"
      using p g1 by (simp add: advanced_def)
    then show ?thesis using e True by simp
  qed
qed


lemma chipsIn_awaitingUser:
  "chipsIn w act amt (gs\<lparr>awaitingUser := b\<rparr>) = (chipsIn w act amt gs)\<lparr>awaitingUser := b\<rparr>"
  by (cases act; cases w) (simp_all add: chipsIn_def toCall_def bet_def Let_def)

lemma userAction_chipsIn:
  "userAction Check amt gs = advanceOrSwitch ((chipsIn Player Check amt gs)\<lparr>awaitingUser := False\<rparr>)"
  "userAction Allin amt gs
     = Some (nextAction ((chipsIn Player Allin amt gs)\<lparr>awaitingUser := False, turn := Opponent\<rparr>))"
  "userAction Raise amt gs
     = Some (nextAction ((chipsIn Player Raise amt gs)\<lparr>awaitingUser := False, turn := Opponent\<rparr>))"
  unfolding chipsIn_awaitingUser[symmetric]
  by (simp_all add: userAction_def chipsIn_def toCall_def Let_def)

lemma aiAction_chipsIn:
  "act \<noteq> Fold \<Longrightarrow> aiAction act amt gs = aiAdvanceOrSwitch (chipsIn Opponent act amt gs)"
  by (cases act) (simp_all add: aiAction_def chipsIn_def toCall_def Let_def)

text \<open>
  C4, amended. In a hand in play (before the showdown, nobody folded, the deck holding the
  cards of the remaining streets) every non-fold action runs without an exception, and:
  after any non-fold action of the opponent, and after the player's check or call when it
  is the player's turn, if the two \<open>currentBet\<close> values are equal once the chips are in,
  both are reset to 0 and the stage advances (Preflop to Flop with 3 board cards, Flop to
  Turn with 1, Turn to River with 1, River to Showdown), otherwise the turn switches to the
  other player with the stage unchanged; after the player's all-in or raise the turn goes
  to the opponent with the stage and both \<open>currentBet\<close> values unchanged, whether or not
  the two are equal.
\<close>

theorem non_fold_action_outcome:
  assumes ns: "stage gs \<noteq> Showdown" and nf: "\<not> folded (player gs)" "\<not> folded (opponent gs)"
    and len: "cards_needed (stage gs) \<le> length (deck gs)"
  shows "(act \<noteq> Fold \<longrightarrow>
            (\<exists>gs'. aiAction act amt gs = Some gs'
               \<and> (if currentBet (player (chipsIn Opponent act amt gs))
                        = currentBet (opponent (chipsIn Opponent act amt gs))
                   then advanced gs gs'
                   else switched Player (chipsIn Opponent act amt gs) gs')))
       \<and> (turn gs = Player \<longrightarrow>
            (\<exists>gs'. userAction Check amt gs = Some gs'
               \<and> (if currentBet (player (chipsIn Player Check amt gs))
                        = currentBet (opponent (chipsIn Player Check amt gs))
                   then advanced gs gs'
                   else switched Opponent (chipsIn Player Check amt gs) gs')))
       \<and> (act = Allin \<or> act = Raise \<longrightarrow>
            (\<exists>gs'. userAction act amt gs = Some gs'
               \<and> switched Opponent (chipsIn Player act amt gs) gs'))"
proof (intro conjI impI)
  assume a: "act \<noteq> Fold"
  let ?c = "chipsIn Opponent act amt gs"
  obtain g where g: "aiAdvanceOrSwitch ?c = Some g"
      "if currentBet (player ?c) = currentBet (opponent ?c) then advanced ?c g
       else switched Player ?c g"
    using aiAdvanceOrSwitch_outcome[of ?c] ns nf len by auto
  have "advanced ?c g = advanced gs g" by (simp add: advanced_def)
  then have "aiAction act amt gs = Some g
               \<and> (if currentBet (player ?c) = currentBet (opponent ?c)
                   then advanced gs g else switched Player ?c g)"
    using g aiAction_chipsIn[OF a, of amt gs] by (simp split: if_splits)
  then show "\<exists>gs'. aiAction act amt gs = Some gs'
               \<and> (if currentBet (player ?c) = currentBet (opponent ?c)
                   then advanced gs gs' else switched Player ?c gs')"
    by (rule exI)
next
  assume t: "turn gs = Player"
  let ?c = "chipsIn Player Check amt gs"
  let ?d = "?c\<lparr>awaitingUser := False\<rparr>"
  obtain g where g: "advanceOrSwitch ?d = Some g"
      "if currentBet (player ?d) = currentBet (opponent ?d) then advanced ?d g
       else switched (if turn ?d = Player then Opponent else Player) ?d g"
    using advanceOrSwitch_outcome[of ?d] ns nf len by auto
  have "advanced ?d g = advanced gs g" by (simp add: advanced_def)
  moreover have "switched w ?d g = switched w ?c g" for w by (simp add: switched_def)
  ultimately have "userAction Check amt gs = Some g
               \<and> (if currentBet (player ?c) = currentBet (opponent ?c)
                   then advanced gs g else switched Opponent ?c g)"
    using g t userAction_chipsIn(1)[of amt gs] by (simp split: if_splits)
  then show "\<exists>gs'. userAction Check amt gs = Some gs'
               \<and> (if currentBet (player ?c) = currentBet (opponent ?c)
                   then advanced gs gs' else switched Opponent ?c gs')"
    by (rule exI)
next
  assume a: "act = Allin \<or> act = Raise"
  let ?c = "chipsIn Player act amt gs"
  let ?d = "?c\<lparr>awaitingUser := False, turn := Opponent\<rparr>"
  have "stage (nextAction ?d) = stage ?d" using nf by (intro nextAction_stage) simp_all
  then have "switched Opponent ?c (nextAction ?d)" by (simp add: switched_def)
  then show "\<exists>gs'. userAction act amt gs = Some gs' \<and> switched Opponent ?c gs'"
    using a userAction_chipsIn(2,3) by auto
qed

text \<open>
  C4, as the code has it (counterexample to the claim as stated). The player is on the
  button, the opponent has checked behind its big blind, and the player raises with the
  slider at 0: the 50 owed go in, both \<open>currentBet\<close> values are 100, and the hand stays at
  Preflop with the bets not reset, no flop dealt and the turn given to the opponent.
  \<open>userAction\<close> calls \<open>advanceOrSwitch\<close> only after a check or call.
\<close>

theorem raise_to_equal_bets_counterexample:
  "map_option (\<lambda>g. (stage g, currentBet (player g), currentBet (opponent g)))
     (Option.bind (startHand (\<lambda>i. i) evenState) (run [AiTimer Check 0]))
     = Some (Preflop, 50, 100)
   \<and> map_option (\<lambda>g. (stage g, currentBet (player g), currentBet (opponent g), turn g, length (board g)))
     (Option.bind (startHand (\<lambda>i. i) evenState) (run [AiTimer Check 0, Click Raise 0]))
     = Some (Preflop, 100, 100, Opponent, 0)"
  by code_simp

theorem non_fold_action_outcome_witness:
  "\<exists>gs gs1 gs2. Option.bind (startHand (\<lambda>i. i) evenState) (run [AiTimer Check 0]) = Some gs
     \<and> userAction Check 0 gs = Some gs1
     \<and> stage gs1 = Flop \<and> currentBet (player gs1) = 0 \<and> currentBet (opponent gs1) = 0
     \<and> length (board gs1) = 3
     \<and> userAction Raise 200 gs = Some gs2
     \<and> stage gs2 = Preflop \<and> turn gs2 = Opponent
     \<and> currentBet (player gs2) = 300 \<and> currentBet (opponent gs2) = 100"
proof -
  have a: "map_option (\<lambda>g. (stage g, folded (player g), folded (opponent g), length (deck g), turn g,
                 length (board g),
                 currentBet (player (chipsIn Player Check 0 g)),
                 currentBet (opponent (chipsIn Player Check 0 g)),
                 currentBet (player (chipsIn Player Raise 200 g)),
                 currentBet (opponent (chipsIn Player Raise 200 g))))
             (Option.bind (startHand (\<lambda>i. i) evenState) (run [AiTimer Check 0]))
           = Some (Preflop, False, False, 48, Player, 0, 100, 100, 300, 100)"
    by code_simp
  then obtain gs where g: "Option.bind (startHand (\<lambda>i. i) evenState) (run [AiTimer Check 0]) = Some gs"
      "stage gs = Preflop" "\<not> folded (player gs)" "\<not> folded (opponent gs)" "length (deck gs) = 48"
      "turn gs = Player" "length (board gs) = 0"
      "currentBet (player (chipsIn Player Check 0 gs)) = 100"
      "currentBet (opponent (chipsIn Player Check 0 gs)) = 100"
      "currentBet (player (chipsIn Player Raise 200 gs)) = 300"
      "currentBet (opponent (chipsIn Player Raise 200 gs)) = 100"
    by auto
  have h: "stage gs \<noteq> Showdown" "cards_needed (stage gs) \<le> length (deck gs)"
    using g by (simp_all add: cards_needed_def)
  from non_fold_action_outcome [OF h(1) g(3) g(4) h(2), of Raise 0]
  obtain gs1 where c: "userAction Check 0 gs = Some gs1" "advanced gs gs1"
    using g by auto
  from non_fold_action_outcome [OF h(1) g(3) g(4) h(2), of Raise 200]
  obtain gs2 where r: "userAction Raise 200 gs = Some gs2"
      "switched Opponent (chipsIn Player Raise 200 gs) gs2"
    by auto
  show ?thesis using g c r
    by (auto simp add: advanced_def switched_def next_stage_def board_cards_dealt_def)
qed


section \<open>The equity pool of the opponent\<close>

lemma mset_swap_valid: "i < length xs \<Longrightarrow> j < length xs \<Longrightarrow> mset (swap i j xs) = mset xs"
  unfolding swap_def using mset_swap[of j xs i] by simp

lemma mset_shuffle_from:
  "\<forall>i. rnd i \<le> i \<Longrightarrow> n < length xs \<Longrightarrow> mset (shuffle_from rnd n xs) = mset xs"
proof (induction n arbitrary: xs)
  case 0
  show ?case by simp
next
  case (Suc n)
  have j: "rnd (Suc n) < length xs" using Suc.prems by (metis le_less_trans)
  have "mset (shuffle_from rnd (Suc n) xs) = mset (swap (Suc n) (rnd (Suc n)) xs)"
    using Suc.IH[of "swap (Suc n) (rnd (Suc n)) xs"] Suc.prems by simp
  also have "\<dots> = mset xs" using Suc.prems(2) j by (rule mset_swap_valid)
  finally show ?case .
qed

lemma mset_shuffle: "\<forall>i. rnd i \<le> i \<Longrightarrow> mset (shuffle rnd xs) = mset xs"
proof (cases xs)
  case Nil
  then show ?thesis by (simp add: shuffle_def)
next
  case (Cons x ys)
  assume "\<forall>i. rnd i \<le> i"
  then show ?thesis unfolding shuffle_def using Cons by (intro mset_shuffle_from) simp_all
qed

lemma distinct_newDeck: "distinct newDeck"
  by code_simp

lemma card_fields_kept [simp]:
  "cards (player (goToShowdown gs)) = cards (player gs)"
  "cards (opponent (goToShowdown gs)) = cards (opponent gs)"
  "deck (goToShowdown gs) = deck gs"
  by (simp_all add: goToShowdown_def Let_def split: option.splits bool.splits)

lemma cards_apart_goToShowdown [simp]: "cards_apart (goToShowdown gs) = cards_apart gs"
  by (simp add: cards_apart_def)

lemma cards_apart_nextAction [simp]: "cards_apart (nextAction gs) = cards_apart gs"
  by (simp add: nextAction_def) (simp add: cards_apart_def)

lemma cards_apart_bet [simp]: "cards_apart (bet w a gs) = cards_apart gs"
  by (simp add: cards_apart_def)

lemma deal_Some: "deal cs = (Some c, rest) \<Longrightarrow> cs = rest @ [c]"
  by (auto simp add: deal_def split: if_splits)

lemma deal_rest: "deal cs = (x, rest) \<Longrightarrow> \<exists>ys. cs = rest @ ys"
  by (cases "cs = []") (auto simp add: deal_def intro: exI[of _ "[last cs]"])

lemma cards_apart_moved:
  assumes "cards_apart gs" and "deck gs = d' @ moved @ ys" 
  shows "cards_apart (gs\<lparr>deck := d', board := board gs @ rev moved, stage := st\<rparr>)"
  using assms by (auto simp add: cards_apart_def)

lemma dealFlop_cards_apart:
  assumes "dealFlop gs = Some gs'" and "cards_apart gs"
  shows "cards_apart gs'"
proof -
  obtain burn d1 c1 d2 c2 d3 c3 d4 where
    d: "deal (deck gs) = (burn, d1)" "deal d1 = (Some c1, d2)" "deal d2 = (Some c2, d3)"
       "deal d3 = (Some c3, d4)"
    and g: "gs' = gs\<lparr>deck := d4, board := board gs @ [c1, c2, c3], stage := Flop\<rparr>"
    using assms(1) by (auto simp add: dealFlop_def Let_def split: prod.splits option.splits)
  obtain ys where "deck gs = d1 @ ys" using deal_rest[OF d(1)] by blast
  then have "deck gs = d4 @ [c3, c2, c1] @ ys"
    using deal_Some[OF d(2)] deal_Some[OF d(3)] deal_Some[OF d(4)] by simp
  from cards_apart_moved[OF assms(2) this, of Flop] show ?thesis using g by simp
qed

lemma dealTurn_cards_apart:
  assumes "dealTurn gs = Some gs'" and "cards_apart gs"
  shows "cards_apart gs'"
proof -
  obtain burn d1 c1 d2 where
    d: "deal (deck gs) = (burn, d1)" "deal d1 = (Some c1, d2)"
    and g: "gs' = gs\<lparr>deck := d2, board := board gs @ [c1], stage := Turn\<rparr>"
    using assms(1) by (auto simp add: dealTurn_def Let_def split: prod.splits option.splits)
  obtain ys where "deck gs = d1 @ ys" using deal_rest[OF d(1)] by blast
  then have "deck gs = d2 @ [c1] @ ys"
    using deal_Some[OF d(2)] by simp
  from cards_apart_moved[OF assms(2) this, of Turn] show ?thesis using g by simp
qed

lemma dealRiver_cards_apart:
  assumes "dealRiver gs = Some gs'" and "cards_apart gs"
  shows "cards_apart gs'"
proof -
  obtain burn d1 c1 d2 where
    d: "deal (deck gs) = (burn, d1)" "deal d1 = (Some c1, d2)"
    and g: "gs' = gs\<lparr>deck := d2, board := board gs @ [c1], stage := River\<rparr>"
    using assms(1) by (auto simp add: dealRiver_def Let_def split: prod.splits option.splits)
  obtain ys where "deck gs = d1 @ ys" using deal_rest[OF d(1)] by blast
  then have "deck gs = d2 @ [c1] @ ys"
    using deal_Some[OF d(2)] by simp
  from cards_apart_moved[OF assms(2) this, of River] show ?thesis using g by simp
qed

lemma cards_apart_bets_reset:
  "cards_apart (gs\<lparr>player := (player gs)\<lparr>currentBet := 0\<rparr>,
                   opponent := (opponent gs)\<lparr>currentBet := 0\<rparr>\<rparr>) = cards_apart gs"
  by (simp add: cards_apart_def)

lemma cards_apart_turn [simp]: "cards_apart (gs\<lparr>turn := w\<rparr>) = cards_apart gs"
  by (simp add: cards_apart_def)

lemma advanceOrSwitch_cards_apart:
  assumes "advanceOrSwitch gs = Some gs'" and "cards_apart gs"
  shows "cards_apart gs'"
proof (cases "currentBet (player gs) = currentBet (opponent gs)")
  case False
  then show ?thesis using assms by (auto simp add: advanceOrSwitch_def)
next
  case True
  define g1 where "g1 = gs\<lparr>player := (player gs)\<lparr>currentBet := 0\<rparr>,
                            opponent := (opponent gs)\<lparr>currentBet := 0\<rparr>\<rparr>"
  have c1: "cards_apart g1" using assms(2) by (simp add: g1_def cards_apart_bets_reset)
  obtain g2 where a: "(case stage g1 of Preflop \<Rightarrow> dealFlop g1 | Flop \<Rightarrow> dealTurn g1
            | Turn \<Rightarrow> dealRiver g1 | River \<Rightarrow> Some (goToShowdown g1)
            | Showdown \<Rightarrow> Some g1) = Some g2"
    and b: "gs' = nextAction (g2\<lparr>turn := (if button g2 = Player then Player else Opponent)\<rparr>)"
    using assms(1) True unfolding advanceOrSwitch_def g1_def Let_def
    by (auto split: option.splits)
  have "cards_apart g2"
    using a c1 dealFlop_cards_apart dealTurn_cards_apart dealRiver_cards_apart
    by (cases "stage g1") auto
  then show ?thesis using b by simp
qed

lemma aiAdvanceOrSwitch_cards_apart:
  assumes "aiAdvanceOrSwitch gs = Some gs'" and "cards_apart gs"
  shows "cards_apart gs'"
proof (cases "currentBet (player gs) = currentBet (opponent gs)")
  case False
  then show ?thesis using assms by (auto simp add: aiAdvanceOrSwitch_def)
next
  case True
  define g1 where "g1 = gs\<lparr>player := (player gs)\<lparr>currentBet := 0\<rparr>,
                            opponent := (opponent gs)\<lparr>currentBet := 0\<rparr>\<rparr>"
  have c1: "cards_apart g1" using assms(2) by (simp add: g1_def cards_apart_bets_reset)
  have e: "(case stage g1 of
              River \<Rightarrow> Some (goToShowdown g1)
            | st \<Rightarrow>
                (case (case st of Preflop \<Rightarrow> dealFlop g1 | Flop \<Rightarrow> dealTurn g1
                            | Turn \<Rightarrow> dealRiver g1 | _ \<Rightarrow> Some g1) of
                   None \<Rightarrow> None
                 | Some gs2 \<Rightarrow>
                     Some (nextAction
                            (gs2\<lparr>turn := (if button gs2 = Player then Player else Opponent)\<rparr>)))) = Some gs'"
    using assms(1) True unfolding aiAdvanceOrSwitch_def g1_def Let_def by simp
  show ?thesis
    using e c1 dealFlop_cards_apart[of g1] dealTurn_cards_apart[of g1] dealRiver_cards_apart[of g1]
    by (cases "stage g1") (auto split: option.splits)
qed

lemma cards_apart_awaitingUser [simp]: "cards_apart (gs\<lparr>awaitingUser := b\<rparr>) = cards_apart gs"
  by (simp add: cards_apart_def)

lemma cards_apart_aiTimers [simp]: "cards_apart (gs\<lparr>aiTimers := n\<rparr>) = cards_apart gs"
  by (simp add: cards_apart_def)

lemma cards_apart_folded [simp]:
  "cards_apart (gs\<lparr>player := (player gs)\<lparr>folded := b\<rparr>\<rparr>) = cards_apart gs"
  "cards_apart (gs\<lparr>opponent := (opponent gs)\<lparr>folded := b\<rparr>\<rparr>) = cards_apart gs"
  by (simp_all add: cards_apart_def)

lemma cards_apart_chipsIn [simp]: "cards_apart (chipsIn w act amt gs) = cards_apart gs"
  by (cases act) (simp_all add: chipsIn_def)

lemma userAction_cards_apart:
  assumes "userAction act amt gs = Some gs'" and "cards_apart gs"
  shows "cards_apart gs'"
proof (cases act)
  case Fold
  then have "gs' = goToShowdown (gs\<lparr>awaitingUser := False, player := (player gs)\<lparr>folded := True\<rparr>\<rparr>)"
    using assms(1) by (simp add: userAction_def Let_def)
  moreover have "cards_apart (gs\<lparr>awaitingUser := False, player := (player gs)\<lparr>folded := True\<rparr>\<rparr>)"
    using assms(2) by (simp add: cards_apart_def)
  ultimately show ?thesis by simp
next
  case Check
  then show ?thesis
    using assms advanceOrSwitch_cards_apart[of "(chipsIn Player Check amt gs)\<lparr>awaitingUser := False\<rparr>" gs']
    by (simp add: userAction_chipsIn)
next
  case Allin
  then show ?thesis using assms by (auto simp add: userAction_chipsIn)
next
  case Raise
  then show ?thesis using assms by (auto simp add: userAction_chipsIn)
qed

lemma aiAction_cards_apart:
  assumes "aiAction act amt gs = Some gs'" and "cards_apart gs"
  shows "cards_apart gs'"
proof (cases "act = Fold")
  case True
  then show ?thesis using assms by (auto simp add: aiAction_def Let_def)
next
  case False
  then show ?thesis
    using assms aiAdvanceOrSwitch_cards_apart[of "chipsIn Opponent act amt gs" gs']
    by (simp add: aiAction_chipsIn)
qed

lemma step_cards_apart:
  assumes "step ev gs = Some gs'" and "cards_apart gs"
  shows "cards_apart gs'"
  using assms userAction_cards_apart aiAction_cards_apart[of _ _ "gs\<lparr>aiTimers := aiTimers gs - 1\<rparr>"]
  by (cases ev) (auto simp add: step_def split: if_splits)

lemma run_cards_apart:
  "run evs gs = Some gs' \<Longrightarrow> cards_apart gs \<Longrightarrow> cards_apart gs'"
proof (induction evs arbitrary: gs)
  case Nil
  then show ?case by simp
next
  case (Cons ev evs)
  then obtain g where g: "step ev gs = Some g" "run evs g = Some gs'"
    by (auto split: option.splits)
  from step_cards_apart[OF g(1) Cons.prems(2)] Cons.IH[OF g(2)] show ?case by blast
qed

lemma pool_of_cards_apart:
  assumes "cards_apart gs"
  shows "aiEquityPool gs = deck gs" and "set (aiEquityPool gs) \<inter> set (cards (player gs)) = {}"
    and "set (aiEquityPool gs) \<subseteq> set newDeck"
proof -
  have "\<forall>c \<in> set (deck gs). c \<notin> set (cards (opponent gs)) \<and> c \<notin> set (board gs)"
    using assms by (auto simp add: cards_apart_def)
  then show p: "aiEquityPool gs = deck gs"
    by (simp add: aiEquityPool_def remaining_def)
  show "set (aiEquityPool gs) \<inter> set (cards (player gs)) = {}"
    unfolding p using assms by (auto simp add: cards_apart_def)
  show "set (aiEquityPool gs) \<subseteq> set newDeck"
    unfolding p using assms by (simp add: cards_apart_def)
qed


lemma deal_length_le: "deal cs = (x, rest) \<Longrightarrow> length rest \<le> length cs"
  by (auto simp add: deal_def split: if_splits)

lemma deals_deck_shrinks:
  "dealFlop gs = Some gs' \<Longrightarrow> length (deck gs') \<le> length (deck gs)"
  "dealTurn gs = Some gs' \<Longrightarrow> length (deck gs') \<le> length (deck gs)"
  "dealRiver gs = Some gs' \<Longrightarrow> length (deck gs') \<le> length (deck gs)"
  by (auto simp add: dealFlop_def dealTurn_def dealRiver_def Let_def
        split: prod.splits option.splits dest!: deal_length_le)

lemma deck_nextAction [simp]: "deck (nextAction gs) = deck gs"
  by (simp add: nextAction_def)

lemma advanceOrSwitch_deck_shrinks:
  "advanceOrSwitch gs = Some gs' \<Longrightarrow> length (deck gs') \<le> length (deck gs)"
  using deals_deck_shrinks[of "gs\<lparr>player := (player gs)\<lparr>currentBet := 0\<rparr>,
                                   opponent := (opponent gs)\<lparr>currentBet := 0\<rparr>\<rparr>"]
  by (cases "stage gs") (auto simp add: advanceOrSwitch_def Let_def split: if_splits option.splits)

lemma aiAdvanceOrSwitch_deck_shrinks:
  "aiAdvanceOrSwitch gs = Some gs' \<Longrightarrow> length (deck gs') \<le> length (deck gs)"
  using deals_deck_shrinks[of "gs\<lparr>player := (player gs)\<lparr>currentBet := 0\<rparr>,
                                   opponent := (opponent gs)\<lparr>currentBet := 0\<rparr>\<rparr>"]
  by (cases "stage gs") (auto simp add: aiAdvanceOrSwitch_def Let_def split: if_splits option.splits)

lemma step_deck_shrinks:
  assumes "step ev gs = Some gs'"
  shows "length (deck gs') \<le> length (deck gs)"
proof (cases ev)
  case (Click act amt)
  show ?thesis
  proof (cases "awaitingUser gs")
    case False
    then show ?thesis using assms Click by (simp add: step_def)
  next
    case True
    then have u: "userAction act amt gs = Some gs'" using assms Click by (simp add: step_def)
    show ?thesis
    proof (cases act)
      case Fold
      then show ?thesis using u by (auto simp add: userAction_def Let_def)
    next
      case Check
      then show ?thesis
        using u advanceOrSwitch_deck_shrinks[of "(chipsIn Player Check amt gs)\<lparr>awaitingUser := False\<rparr>" gs']
        by (simp add: userAction_chipsIn)
    next
      case Allin
      then show ?thesis using u by (auto simp add: userAction_chipsIn)
    next
      case Raise
      then show ?thesis using u by (auto simp add: userAction_chipsIn)
    qed
  qed
next
  case (AiTimer act amt)
  show ?thesis
  proof (cases "0 < aiTimers gs")
    case False
    then show ?thesis using assms AiTimer by (simp add: step_def)
  next
    case True
    then have u: "aiAction act amt (gs\<lparr>aiTimers := aiTimers gs - 1\<rparr>) = Some gs'"
      using assms AiTimer by (simp add: step_def)
    show ?thesis
    proof (cases "act = Fold")
      case True
      then show ?thesis using u by (auto simp add: aiAction_def Let_def)
    next
      case False
      then show ?thesis
        using u aiAdvanceOrSwitch_deck_shrinks[of "chipsIn Opponent act amt (gs\<lparr>aiTimers := aiTimers gs - 1\<rparr>)" gs']
        by (simp add: aiAction_chipsIn)
    qed
  qed
qed

lemma run_deck_shrinks:
  "run evs gs = Some gs' \<Longrightarrow> length (deck gs') \<le> length (deck gs)"
proof (induction evs arbitrary: gs)
  case Nil
  then show ?case by simp
next
  case (Cons ev evs)
  then obtain g where g: "step ev gs = Some g" "run evs g = Some gs'"
    by (auto split: option.splits)
  from step_deck_shrinks[OF g(1)] Cons.IH[OF g(2)] show ?case by simp
qed


lemma startHand_cards_apart:
  assumes v: "\<forall>i. rnd i \<le> i"
  shows "\<exists>gs1. startHand rnd gs = Some gs1 \<and> in_play (stacks gs) gs1 \<and> cards_apart gs1
           \<and> length (deck gs1) = 48"
proof -
  obtain a b c d dk where l: "length dk = 48" and sh: "shuffle rnd newDeck = dk @ [d, c, b, a]" and
    e: "startHand rnd gs =
       Some (nextAction
              ((postBlinds
                 (gs\<lparr>deck := dk, board := [],
                     player := (player gs)\<lparr>cards := [a, b], currentBet := 0, folded := False\<rparr>,
                     opponent := (opponent gs)\<lparr>cards := [c, d], currentBet := 0, folded := False\<rparr>,
                     pot := 0,
                     button := (if button gs = Player then Opponent else Player)\<rparr>))
               \<lparr>stage := Preflop,
                turn := (if (if button gs = Player then Opponent else Player) = Player
                         then Opponent else Player)\<rparr>))"
    using startHand_Some[of rnd gs] by blast
  obtain gs1 where s: "startHand rnd gs = Some gs1" and ip: "in_play (stacks gs) gs1"
    using startHand_in_play by blast
  have m: "mset (dk @ [d, c, b, a]) = mset newDeck"
    using mset_shuffle[OF v, of newDeck] sh by simp
  then have di: "distinct (dk @ [d, c, b, a])"
    using distinct_newDeck by (metis mset_eq_imp_distinct_iff)
  have su: "set (dk @ [d, c, b, a]) = set newDeck" using m by (rule mset_eq_setD)
  let ?g0 = "gs\<lparr>deck := dk, board := [],
                     player := (player gs)\<lparr>cards := [a, b], currentBet := 0, folded := False\<rparr>,
                     opponent := (opponent gs)\<lparr>cards := [c, d], currentBet := 0, folded := False\<rparr>,
                     pot := 0,
                     button := (if button gs = Player then Opponent else Player)\<rparr>"
  have f: "deck gs1 = dk" "board gs1 = []" "cards (player gs1) = [a, b]" "cards (opponent gs1) = [c, d]"
    using s unfolding e by (auto simp add: nextAction_def)
  have "cards_apart gs1"
    unfolding cards_apart_def f using di su by auto
  then show ?thesis using s ip f l by simp
qed

text \<open>
  C3, amended. For every call of the equity computation that \<open>aiAction\<close> makes in a hand
  dealt from a deck shuffled with indices \<open>j \<le> i\<close>, the pool of unseen cards equals the
  live dealing deck's current contents minus the hero's cards minus the known board. The
  dealt cards have left that deck, so the pool is the live deck itself: besides the hero's
  cards and the board it also lacks the other player's hole cards and the burn cards, and
  it has 48 cards before the flop and never more afterwards. The pool is a filtered copy:
  the live deck is not changed.
\<close>

theorem equity_pool_is_live_deck:
  assumes "\<forall>i. rnd i \<le> i"
  shows "\<exists>gs1. startHand rnd gs0 = Some gs1 \<and> length (aiEquityPool gs1) = 48
          \<and> (\<forall>evs. \<exists>gs. run evs gs1 = Some gs
                \<and> aiEquityPool gs = deck gs
                \<and> set (aiEquityPool gs) = set (deck gs) - set (cards (opponent gs)) - set (board gs)
                \<and> set (aiEquityPool gs) \<inter> set (cards (player gs)) = {}
                \<and> set (aiEquityPool gs) \<subseteq> set newDeck
                \<and> length (aiEquityPool gs) \<le> 48)"
proof -
  obtain gs1 where s: "startHand rnd gs0 = Some gs1" and ip: "in_play (stacks gs0) gs1"
      and ca: "cards_apart gs1" and l: "length (deck gs1) = 48"
    using startHand_cards_apart[OF assms] by blast
  have a: "length (aiEquityPool gs1) = 48" using pool_of_cards_apart(1)[OF ca] l by simp
  have b: "\<exists>gs. run evs gs1 = Some gs
                \<and> aiEquityPool gs = deck gs
                \<and> set (aiEquityPool gs) = set (deck gs) - set (cards (opponent gs)) - set (board gs)
                \<and> set (aiEquityPool gs) \<inter> set (cards (player gs)) = {}
                \<and> set (aiEquityPool gs) \<subseteq> set newDeck
                \<and> length (aiEquityPool gs) \<le> 48" for evs
  proof -
    obtain gs where r: "run evs gs1 = Some gs" using run_in_play[OF ip, of evs] by blast
    have c: "cards_apart gs" using run_cards_apart[OF r ca] .
    have n: "length (deck gs) \<le> length (deck gs1)" using run_deck_shrinks[OF r] .
    have "set (aiEquityPool gs) = set (deck gs) - set (cards (opponent gs)) - set (board gs)"
      by (auto simp add: aiEquityPool_def remaining_def)
    then show ?thesis using r pool_of_cards_apart[OF c] n l by simp
  qed
  show ?thesis using s a b by blast
qed

text \<open>
  C3, as the code has it (counterexample to the claim as stated). At the opponent's first
  decision of a hand the pool built from the live deck has 48 cards, while the full deck
  minus the opponent's two cards and the empty board has 50: the player's hole cards, here
  the ace and king of clubs, are missing from the pool.
\<close>

theorem equity_pool_counterexample:
  "map_option (\<lambda>g. (length (aiEquityPool g),
                      length (remaining (cards (opponent g)) (board g) newDeck),
                      cards (player g),
                      \<lparr>rank = RA, suit = Clubs\<rparr> \<in> set (aiEquityPool g),
                      \<lparr>rank = RA, suit = Clubs\<rparr>
                         \<in> set (remaining (cards (opponent g)) (board g) newDeck)))
     (startHand (\<lambda>i. i) evenState)
   = Some (48, 50, [\<lparr>rank = RA, suit = Clubs\<rparr>, \<lparr>rank = RK, suit = Clubs\<rparr>], False, True)"
  by code_simp

theorem equity_pool_is_live_deck_witness:
  "\<exists>gs1 gs. startHand (\<lambda>i. i) evenState = Some gs1 \<and> length (aiEquityPool gs1) = 48
      \<and> run [AiTimer Check 0, Click Check 0] gs1 = Some gs
      \<and> aiEquityPool gs = deck gs \<and> length (aiEquityPool gs) = 44 \<and> length (board gs) = 3"
proof -
  have v: "\<forall>i::nat. (\<lambda>i. i) i \<le> i" by simp
  obtain gs1 where s: "startHand (\<lambda>i. i) evenState = Some gs1"
    and l: "length (aiEquityPool gs1) = 48"
    and a: "\<forall>evs. \<exists>gs. run evs gs1 = Some gs
                \<and> aiEquityPool gs = deck gs
                \<and> set (aiEquityPool gs) = set (deck gs) - set (cards (opponent gs)) - set (board gs)
                \<and> set (aiEquityPool gs) \<inter> set (cards (player gs)) = {}
                \<and> set (aiEquityPool gs) \<subseteq> set newDeck
                \<and> length (aiEquityPool gs) \<le> 48"
    using equity_pool_is_live_deck [OF v, of evenState] by blast
  obtain gs where r: "run [AiTimer Check 0, Click Check 0] gs1 = Some gs"
    and p: "aiEquityPool gs = deck gs"
    using spec[OF a, of "[AiTimer Check 0, Click Check 0]"] by blast
  have "map_option (\<lambda>g. (length (deck g), length (board g)))
          (Option.bind (startHand (\<lambda>i. i) evenState) (run [AiTimer Check 0, Click Check 0]))
        = Some (44, 3)"
    by code_simp
  then have "length (deck gs) = 44" "length (board gs) = 3" using s r by simp_all
  then show ?thesis using s l r p by auto
qed

end
